theory Spec2Isabelle
  imports Main "HOL-Library.AList"
begin

section \<open>JavaScript values\<close>

text \<open>
  A JavaScript number is a double. The numbers that the modelled code computes are integers,
  so a finite number is given by its integer value \<open>Num n\<close>, where \<open>n\<close> is one of the
  integers a double can hold; beside them stand \<^verbatim>\<open>NaN\<close>, the negative zero and the two
  infinities. A string is the list of its code units; the model covers the strings whose
  code units are below 256, one \<open>char\<close> per code unit.
\<close>

datatype jsnum = NaN | NegZero | Num int | Infinity | NegInfinity

datatype jsval = JUndefined | JNull | JBool bool | JNumber jsnum | JStr string

fun isString :: "jsval \<Rightarrow> bool" where
  "isString (JStr s) = True"
| "isString v = False"

text \<open>
  The conversion of an exact integer to a number: an integer below \<open>2^53\<close> is a double;
  a larger one is rounded to 53 significant bits, to the nearest double and to the even one
  of two equally near; a result of \<open>2^1024\<close> or more is an infinity. \<open>bitlen n\<close> is the
  number of binary digits of \<open>n\<close>, and \<open>to_double\<close> rounds a magnitude, \<open>None\<close> being the
  overflow. The magnitudes are integers throughout.
\<close>

function bitlen :: "int \<Rightarrow> nat" where
  "bitlen n = (if n \<le> 0 then 0 else Suc (bitlen (n div 2)))"
  by pat_completeness auto
termination
  by (relation "measure nat") auto

definition to_double :: "int \<Rightarrow> int option" where
  "to_double n =
     (if n < 2 ^ 53 then Some n
      else
        (let e = bitlen n - 53;
             q = n div 2 ^ e;
             r = n mod 2 ^ e;
             half = 2 ^ (e - 1);
             q1 = (if half < r \<or> (r = half \<and> odd q) then q + 1 else q);
             v = q1 * 2 ^ e
         in if 2 ^ 1024 \<le> v then None else Some v))"

definition number :: "int \<Rightarrow> jsnum" where
  "number m =
     (case to_double \<bar>m\<bar> of
        None \<Rightarrow> (if m < 0 then NegInfinity else Infinity)
      | Some v \<Rightarrow> Num (if m < 0 then - v else v))"

text \<open>
  \<^verbatim>\<open>x *= 1024\<close> on a number: the product of two doubles is the exact product, rounded.
\<close>

fun times_1024 :: "jsnum \<Rightarrow> jsnum" where
  "times_1024 (Num n) = number (n * 1024)"
| "times_1024 NaN = NaN"
| "times_1024 NegZero = NegZero"
| "times_1024 Infinity = Infinity"
| "times_1024 NegInfinity = NegInfinity"

text \<open>
  \<^verbatim>\<open>String.prototype.toLowerCase\<close> on the code units below 256: the letters \<^verbatim>\<open>A\<close> to \<^verbatim>\<open>Z\<close>
  and the capital letters from U+00C0 to U+00DE (U+00D7, the multiplication sign, is none)
  have their small letter 32 places further; every other code unit stays.
\<close>

definition lower_char :: "char \<Rightarrow> char" where
  "lower_char c =
     (let n = (of_char c :: nat)
      in if (65 \<le> n \<and> n \<le> 90) \<or> (192 \<le> n \<and> n \<le> 222 \<and> n \<noteq> 215) then char_of (n + 32)
         else c)"

definition toLowerCase :: "string \<Rightarrow> string" where
  "toLowerCase s = map lower_char s"

text \<open>
  \<^verbatim>\<open>parseInt(s)\<close> without a radix: leading white space is skipped (below 256 these are
  the code units 9 to 13, the space and the no-break space U+00A0), a sign is read, a
  \<^verbatim>\<open>0x\<close> prefix selects base sixteen, and the longest prefix of digits is the value,
  converted to a number; no digit at all gives \<^verbatim>\<open>NaN\<close>, and a zero after a minus sign is
  the negative zero. (For more than twenty decimal digits the language leaves the engine a
  choice; the engine of this program converts the exact value, as modelled.)
\<close>

definition is_space :: "char \<Rightarrow> bool" where
  "is_space c = (let n = (of_char c :: nat) in (9 \<le> n \<and> n \<le> 13) \<or> n = 32 \<or> n = 160)"

definition digit_val :: "nat \<Rightarrow> char \<Rightarrow> nat option" where
  "digit_val radix c =
     (let n = (of_char c :: nat);
          d = (if 48 \<le> n \<and> n \<le> 57 then Some (n - 48)
               else if 97 \<le> n \<and> n \<le> 122 then Some (n - 87)
               else if 65 \<le> n \<and> n \<le> 90 then Some (n - 55)
               else None)
      in case d of None \<Rightarrow> None | Some v \<Rightarrow> if v < radix then Some v else None)"

fun digits_value :: "nat \<Rightarrow> string \<Rightarrow> int \<Rightarrow> int" where
  "digits_value radix [] acc = acc"
| "digits_value radix (c # cs) acc =
     (case digit_val radix c of
        None \<Rightarrow> acc
      | Some d \<Rightarrow> digits_value radix cs (acc * int radix + int d))"

definition parse_digits :: "nat \<Rightarrow> string \<Rightarrow> int option" where
  "parse_digits radix s =
     (case s of
        [] \<Rightarrow> None
      | c # cs \<Rightarrow> (case digit_val radix c of
                    None \<Rightarrow> None
                  | Some d \<Rightarrow> Some (digits_value radix s 0)))"

definition parseInt :: "string \<Rightarrow> jsnum" where
  "parseInt str =
     (let s = dropWhile is_space str;
          neg = (case s of c # cs \<Rightarrow> c = CHR ''-'' | [] \<Rightarrow> False);
          s1 = (case s of c # cs \<Rightarrow> if c = CHR ''-'' \<or> c = CHR ''+'' then cs else s | [] \<Rightarrow> s);
          hex = (take 2 s1 = ''0x'' \<or> take 2 s1 = ''0X'');
          r = (if hex then parse_digits 16 (drop 2 s1) else parse_digits 10 s1)
      in case r of
           None \<Rightarrow> NaN
         | Some n \<Rightarrow> if n = 0 \<and> neg then NegZero else number (if neg then - n else n))"

section \<open>Plain objects\<close>

text \<open>
  A plain object (\<^verbatim>\<open>{}\<close> with string keys) is an association list with one pair per own
  property, in insertion order. \<^verbatim>\<open>o[k]\<close> is \<open>map_of\<close>, \<^verbatim>\<open>o[k] = v\<close> is \<open>AList.update\<close>,
  \<^verbatim>\<open>delete o[k]\<close> is \<open>AList.delete\<close>, and lodash's \<^verbatim>\<open>_.size(o)\<close> counts the keys.
\<close>

type_synonym 'v obj = "(string \<times> 'v) list"

definition obj_size :: "'v obj \<Rightarrow> nat" where
  "obj_size ob = length (remdups (map fst ob))"

section \<open>The announcement parser (SlingIrc.js, handle.packParse)\<close>

text \<open>
  The parser reads \<^verbatim>\<open>channel.regex\<close> and \<^verbatim>\<open>channel.groupOrder\<close>. The pattern itself is
  applied by the JavaScript engine (\<^verbatim>\<open>text.match(channel.regex)\<close>); the result of the match
  is an input of the model: \<open>None\<close> for \<^verbatim>\<open>null\<close>, otherwise the array of the whole match followed by the
  capture groups, a group that did not take part being \<^verbatim>\<open>undefined\<close>.
\<close>

type_synonym match_result = "jsval list option"

text \<open>\<^verbatim>\<open>packinfo[i]\<close>: reading past the end of a JavaScript array gives \<^verbatim>\<open>undefined\<close>.\<close>

definition js_index :: "jsval list \<Rightarrow> nat \<Rightarrow> jsval" where
  "js_index xs i = (if i < length xs then xs ! i else JUndefined)"

text \<open>The loop \<^verbatim>\<open>for (i = 0; i < groupOrder.length; i++) packData[groupOrder[i]] = packinfo[i + 1]\<close>.\<close>

fun mapGroups :: "string list \<Rightarrow> jsval list \<Rightarrow> nat \<Rightarrow> jsval obj \<Rightarrow> jsval obj" where
  "mapGroups [] packinfo i packData = packData"
| "mapGroups (g # gs) packinfo i packData =
     mapGroups gs packinfo (Suc i) (AList.update g (js_index packinfo (Suc i)) packData)"

text \<open>
  The \<^verbatim>\<open>switch\<close> on the lower-cased unit. Its cases are \<^verbatim>\<open>"t"\<close>, \<^verbatim>\<open>"g"\<close>, \<^verbatim>\<open>"m"\<close>, \<^verbatim>\<open>"k"\<close> in
  this order, each body multiplies by 1024, and only the last one ends in \<^verbatim>\<open>break\<close>:
  control enters at the matching label and runs every body below it. The result is the size
  and the flag \<^verbatim>\<open>sizeMatch\<close>.
\<close>

definition case_labels :: "string list" where
  "case_labels = [''t'', ''g'', ''m'', ''k'']"

fun run_cases :: "string list \<Rightarrow> bool \<Rightarrow> string \<Rightarrow> jsnum \<Rightarrow> jsnum \<times> bool" where
  "run_cases [] entered u sz = (sz, entered)"
| "run_cases (l # ls) entered u sz =
     (if entered \<or> u = l then run_cases ls True u (times_1024 sz)
      else run_cases ls False u sz)"

definition normalizeSize :: "jsval obj \<Rightarrow> jsval obj" where
  "normalizeSize packData =
     (case (map_of packData ''sizeUnit'', map_of packData ''size'') of
        (Some (JStr unit), Some (JStr sz)) \<Rightarrow>
          (let (sz1, sizeMatch) = run_cases case_labels False (toLowerCase unit) (parseInt sz);
               packData1 = AList.update ''size'' (JNumber sz1) packData
           in if sizeMatch then AList.delete ''sizeUnit'' packData1 else packData1)
      | _ \<Rightarrow> packData)"

text \<open>
  \<open>packParse\<close> returns the record handed to the pack-info callback, \<open>None\<close> when the line
  does not match and no callback is made.
\<close>

definition packParse :: "string list \<Rightarrow> match_result \<Rightarrow> jsval obj option" where
  "packParse groupOrder packinfo =
     (case packinfo of
        None \<Rightarrow> None
      | Some groups \<Rightarrow> Some (normalizeSize (mapGroups groupOrder groups 0 [])))"

section \<open>The connection session (SlingIrc.js)\<close>

text \<open>
  Modelled from the spec: \<^verbatim>\<open>SlingChannel\<close> is not among the sources. A channel carries the
  fields the data model lists: name, optional password, announcement pattern with the order
  of its groups, topic, membership status and the observed flag.
\<close>

record channel =
  ch_name :: string
  ch_password :: "string option"
  ch_regex :: string
  ch_groupOrder :: "string list"
  ch_topic :: string
  ch_status :: string
  ch_observed :: bool

text \<open>
  What the caller may put in \<^verbatim>\<open>opts.onPackinfo\<close>: nothing, a function, or anything else
  (which the constructor rejects).
\<close>

datatype packcb = NoCallback | PackCallback | BadCallback

text \<open>
  The options object of the constructor. A field is \<open>Some\<close> when it passes the type test
  the constructor applies to it (\<^verbatim>\<open>_.isString(nick)\<close>, \<^verbatim>\<open>_.isArray(channels)\<close>,
  \<^verbatim>\<open>_.isObject(ircOpts)\<close>, \<^verbatim>\<open>_.isArray(commands)\<close>) and \<open>None\<close> otherwise.
\<close>

record opts =
  o_nick :: "string option"
  o_channels :: "channel list option"
  o_ircOpts :: "jsval obj option"
  o_commands :: "string list option"
  o_onPackinfo :: packcb

text \<open>
  The private members of a session. The protocol client is an external collaborator; of it
  the model keeps \<open>i_clientOpt\<close>, the options object handed to its constructor, which
  \<^verbatim>\<open>toJSON\<close> reads back as \<^verbatim>\<open>client.opt\<close>.
\<close>

record slingirc =
  i_hostname :: string
  i_nick :: string
  i_commands :: "string list"
  i_chans :: "channel obj"
  i_status :: string
  i_errors :: "string list"
  i_motd :: string
  i_notices :: "string list"
  i_packCb :: packcb
  i_clientOpt :: "jsval obj"

text \<open>\<^verbatim>\<open>_.defaults(o, {k: v})\<close> for one key: assign where \<^verbatim>\<open>o[k]\<close> is \<^verbatim>\<open>undefined\<close>.\<close>

definition default_key :: "string \<Rightarrow> jsval \<Rightarrow> jsval obj \<Rightarrow> jsval obj" where
  "default_key k v ob =
     (case map_of ob k of
        None \<Rightarrow> AList.update k v ob
      | Some JUndefined \<Rightarrow> AList.update k v ob
      | Some w \<Rightarrow> ob)"

definition clientOptions :: "string \<Rightarrow> jsval obj \<Rightarrow> jsval obj" where
  "clientOptions nick options =
     AList.delete ''channels''
       (AList.update ''stripColors'' (JBool True)
         (default_key ''retryDelay'' (JNumber (Num 60000))
           (default_key ''debug'' (JBool False)
             (default_key ''retryCount'' (JNumber (Num 10))
               (default_key ''autoRejoin'' (JBool True)
                 (default_key ''userName'' (JStr nick)
                   (default_key ''realName'' (JStr nick) options)))))))"

text \<open>\<^verbatim>\<open>for (let channel of channels) chans.set(channel.name, channel)\<close>\<close>

fun setChans :: "channel list \<Rightarrow> channel obj \<Rightarrow> channel obj" where
  "setChans [] chans = chans"
| "setChans (c # cs) chans = setChans cs (AList.update (ch_name c) c chans)"

text \<open>
  The constructor. \<open>generated\<close> is the nickname the name generator would produce
  (\<^verbatim>\<open>nomi.generate()\<close>, an external source of random names). The result is the error
  message of the exception, or the new session.
\<close>

definition SlingIrc_new :: "string \<Rightarrow> jsval \<Rightarrow> opts \<Rightarrow> string + slingirc" where
  "SlingIrc_new generated hostname opts =
     (let nick = (case o_nick opts of Some n \<Rightarrow> n | None \<Rightarrow> generated);
          channels = (case o_channels opts of Some cs \<Rightarrow> cs | None \<Rightarrow> []);
          options = clientOptions nick (case o_ircOpts opts of Some io \<Rightarrow> io | None \<Rightarrow> []);
          commands = (case o_commands opts of Some cs \<Rightarrow> cs | None \<Rightarrow> [])
      in case hostname of
           JStr h \<Rightarrow>
             if o_onPackinfo opts = BadCallback then Inl ''onPackinfo must be a function''
             else Inr \<lparr>i_hostname = h, i_nick = nick, i_commands = commands,
                       i_chans = setChans channels [], i_status = ''connecting'',
                       i_errors = [], i_motd = [], i_notices = [],
                       i_packCb = o_onPackinfo opts, i_clientOpt = options\<rparr>
         | _ \<Rightarrow> Inl ''hostname must be a string'')"

text \<open>
  The snapshot \<^verbatim>\<open>toJSON\<close> produces, and at the same time the argument of \<^verbatim>\<open>fromJSON\<close>:
  \<open>j_nick\<close> is the top-level property \<^verbatim>\<open>json.nick\<close>, \<open>j_opts\<close> the nested object
  \<^verbatim>\<open>json.opts\<close> (\<open>None\<close> when it is not an object).
\<close>

record json =
  j_hostname :: jsval
  j_nick :: "string option"
  j_opts :: "opts option"
  j_errors :: "string list"
  j_motd :: string
  j_notices :: "string list"
  j_status :: string

definition toJSON :: "slingirc \<Rightarrow> json" where
  "toJSON p =
     \<lparr>j_hostname = JStr (i_hostname p),
      j_nick = None,
      j_opts = Some \<lparr>o_nick = Some (i_nick p),
                     o_channels = Some (map snd (i_chans p)),
                     o_ircOpts = Some (i_clientOpt p),
                     o_commands = Some (i_commands p),
                     o_onPackinfo = NoCallback\<rparr>,
      j_errors = i_errors p,
      j_motd = i_motd p,
      j_notices = i_notices p,
      j_status = i_status p\<rparr>"

text \<open>
  \<^verbatim>\<open>fromJSON\<close>. \<open>chanFromJSON\<close> stands for \<^verbatim>\<open>SlingChannel.fromJSON\<close>; the channels are
  collected with \<^verbatim>\<open>unshift\<close>, that is in reverse order. The nickname is read from the
  top-level \<^verbatim>\<open>json.nick\<close>, the other options from \<^verbatim>\<open>json.opts\<close>.
\<close>

definition fromJSON_opts :: "(channel \<Rightarrow> channel) \<Rightarrow> json \<Rightarrow> opts" where
  "fromJSON_opts chanFromJSON js =
     \<lparr>o_nick = j_nick js,
      o_channels = (case j_opts js of
                      None \<Rightarrow> None
                    | Some jo \<Rightarrow> (case o_channels jo of
                                   None \<Rightarrow> None
                                 | Some cs \<Rightarrow> Some (rev (map chanFromJSON cs)))),
      o_ircOpts = (case j_opts js of None \<Rightarrow> None | Some jo \<Rightarrow> o_ircOpts jo),
      o_commands = (case j_opts js of None \<Rightarrow> None | Some jo \<Rightarrow> o_commands jo),
      o_onPackinfo = (case j_opts js of
                        None \<Rightarrow> NoCallback
                      | Some jo \<Rightarrow> if o_onPackinfo jo = PackCallback then PackCallback
                                   else NoCallback)\<rparr>"

definition fromJSON :: "string \<Rightarrow> (channel \<Rightarrow> channel) \<Rightarrow> json \<Rightarrow> string + slingirc" where
  "fromJSON generated chanFromJSON js =
     (if \<not> isString (j_hostname js) then Inl ''parameter json.hostname ist not a string''
      else SlingIrc_new generated (j_hostname js) (fromJSON_opts chanFromJSON js))"

section \<open>The download orchestrator (SlingManager.js)\<close>

subsection \<open>Data\<close>

text \<open>
  The transfer engine is an external collaborator. A handle is identified by its address;
  the manager sends it the signals \<^verbatim>\<open>start\<close>, \<^verbatim>\<open>cancel\<close> and \<^verbatim>\<open>kill\<close> and reads two of its
  fields, \<^verbatim>\<open>notices\<close> and \<^verbatim>\<open>pack.status\<close>. The fields belong to the engine, so a function
  from addresses to their current values is an argument of the operations that read them.
\<close>

datatype signal = Start | Cancel | Kill

record axdcc =
  ax_notices :: "string list"
  ax_status :: string

text \<open>
  What the manager does to the outside, in order: a signal to a handle, the disconnect of a
  network's protocol client, the flush of a network's pack history. \<open>Terminal h\<close> is not
  an effect of the manager: the dispatcher below records with it that the engine has
  reported the end of the transfer of handle \<open>h\<close> (complete, error, or progress with
  status canceled).
\<close>

datatype effect = Signal nat signal | Terminal nat | Disconnect string | RemoveAll string

text \<open>
  The document store is an external collaborator as well. Of a stored pack offer the
  manager reads \<^verbatim>\<open>id\<close>, \<^verbatim>\<open>network\<close>, \<^verbatim>\<open>bot\<close> and \<^verbatim>\<open>name\<close>. A lookup ends with an error, with
  \<^verbatim>\<open>null\<close>, or with a document; each lookup yields an object of its own.
\<close>

record doc =
  d_id :: string
  d_network :: string
  d_bot :: string
  d_name :: string

datatype db_reply = DbError | DbNull | DbPack doc

text \<open>
  A download request is the document with the handle attached (\<^verbatim>\<open>pack.xdcc\<close>) and, once
  complete, the notices. \<open>p_ref\<close> is the identity of the object: the finished set is a
  JavaScript \<^verbatim>\<open>Set\<close> and tells its members apart by identity. The handle created for a
  request gets the same number as its address.
\<close>

record pack =
  p_ref :: nat
  p_id :: string
  p_network :: string
  p_bot :: string
  p_name :: string
  p_xdcc :: "nat option"
  p_notices :: "string list option"

record pack_entry =
  pe_pack :: string
  pe_name :: string

record netconf =
  nc_hostname :: jsval
  nc_opts :: "opts option"

record network =
  nw_irc :: slingirc
  nw_xdcc :: "pack list obj"

text \<open>
  The module state: the registry \<^verbatim>\<open>networks\<close>, the set \<^verbatim>\<open>finished\<close> (in insertion order),
  the two configuration stores \<^verbatim>\<open>sc.dl\<close> and \<^verbatim>\<open>sc.nw\<close>, each with the copy that the last
  \<^verbatim>\<open>save()\<close> wrote, the effects so far, the next free object address, the request that
  the event handlers of each handle are bound to (\<^verbatim>\<open>handle.xdccComplete.bind(this, pack)\<close>
  and its siblings), the document-store lookups that \<^verbatim>\<open>addDownload\<close> has issued and that
  have not returned yet, each with its \<^verbatim>\<open>dontPersist\<close> flag, and the networks whose removal
  waits for the disconnect.

  Modelled from the spec: \<^verbatim>\<open>SlingConfig\<close> is not among the sources. A configuration store
  is a key/value store: \<^verbatim>\<open>get(k)\<close> returns what the last \<^verbatim>\<open>set(k, v)\<close> stored, \<^verbatim>\<open>clear(k)\<close>
  removes the key, \<^verbatim>\<open>save()\<close> writes the store out.
\<close>

record state =
  networks :: "network obj"
  finished :: "pack list"
  dl :: "pack_entry list obj"
  dl_saved :: "pack_entry list obj"
  nwc :: "netconf obj"
  nwc_saved :: "netconf obj"
  trace :: "effect list"
  next_ref :: nat
  listeners :: "(nat \<times> pack) list"
  lookups :: "(string \<times> bool) list"
  removals :: "string list"

text \<open>
  How a call ends: it returns, it throws (the message of the error; a read of a property of
  \<^verbatim>\<open>undefined\<close> is a \<^verbatim>\<open>TypeError\<close>), or it calls its callback with the given error argument
  (\<^verbatim>\<open>null\<close> on success). Every operation returns the state it leaves behind as well, also
  when it throws.
\<close>

datatype outcome = Return | Throw string | Callback jsval

subsection \<open>Helpers for the in-place updates\<close>

definition emit :: "nat \<Rightarrow> signal \<Rightarrow> state \<Rightarrow> state" where
  "emit h sg s = s\<lparr>trace := trace s @ [Signal h sg]\<rparr>"

text \<open>\<^verbatim>\<open>nw.xdcc[bot] = q\<close> and \<^verbatim>\<open>delete nw.xdcc[bot]\<close> on the registered network object.\<close>

definition set_queue :: "string \<Rightarrow> string \<Rightarrow> pack list \<Rightarrow> state \<Rightarrow> state" where
  "set_queue network botnick q s =
     (case map_of (networks s) network of
        None \<Rightarrow> s
      | Some nw \<Rightarrow>
          s\<lparr>networks :=
              AList.update network (nw\<lparr>nw_xdcc := AList.update botnick q (nw_xdcc nw)\<rparr>) (networks s)\<rparr>)"

definition delete_queue :: "string \<Rightarrow> string \<Rightarrow> state \<Rightarrow> state" where
  "delete_queue network botnick s =
     (case map_of (networks s) network of
        None \<Rightarrow> s
      | Some nw \<Rightarrow>
          s\<lparr>networks :=
              AList.update network (nw\<lparr>nw_xdcc := AList.delete botnick (nw_xdcc nw)\<rparr>) (networks s)\<rparr>)"

definition get_queue :: "string \<Rightarrow> string \<Rightarrow> state \<Rightarrow> pack list option" where
  "get_queue network botnick s =
     (case map_of (networks s) network of
        None \<Rightarrow> None
      | Some nw \<Rightarrow> map_of (nw_xdcc nw) botnick)"

text \<open>The key \<^verbatim>\<open>`${network}:${bot}`\<close> and \<^verbatim>\<open>sc.dl.get(key) || []\<close>.\<close>

definition dl_key :: "string \<Rightarrow> string \<Rightarrow> string" where
  "dl_key network botnick = network @ '':'' @ botnick"

definition dl_get :: "state \<Rightarrow> string \<Rightarrow> pack_entry list" where
  "dl_get s k = (case map_of (dl s) k of None \<Rightarrow> [] | Some arr \<Rightarrow> arr)"

text \<open>
  The four lines that end each of the three terminal handlers:
  \<^verbatim>\<open>settingsArr = sc.dl.get(key) || []; settingsArr.shift(); sc.dl.set(key, settingsArr); sc.dl.save()\<close>.
\<close>

definition persist_shift :: "string \<Rightarrow> string \<Rightarrow> state \<Rightarrow> state" where
  "persist_shift network botnick s =
     (let k = dl_key network botnick;
          d = AList.update k (tl (dl_get s k)) (dl s)
      in s\<lparr>dl := d, dl_saved := d\<rparr>)"

definition persist_push :: "string \<Rightarrow> string \<Rightarrow> pack_entry \<Rightarrow> state \<Rightarrow> state" where
  "persist_push network botnick e s =
     (let k = dl_key network botnick;
          d = AList.update k (dl_get s k @ [e]) (dl s)
      in s\<lparr>dl := d, dl_saved := d\<rparr>)"

text \<open>
  The step that follows the \<^verbatim>\<open>shift\<close> in each terminal handler:
  \<^verbatim>\<open>if (xdcc.length >= 1) xdcc[0].xdcc.emit("start"); else delete nw.xdcc[bot];\<close>
  \<open>None\<close> is the \<^verbatim>\<open>TypeError\<close> of a head without handle, thrown before any change.
\<close>

definition advance :: "string \<Rightarrow> string \<Rightarrow> pack list \<Rightarrow> state \<Rightarrow> state option" where
  "advance network botnick xdcc s =
     (case xdcc of
        [] \<Rightarrow> Some (delete_queue network botnick s)
      | p # ps \<Rightarrow> (case p_xdcc p of None \<Rightarrow> None | Some h \<Rightarrow> Some (emit h Start s)))"

text \<open>
  \<^verbatim>\<open>finished.add(request)\<close>: a \<^verbatim>\<open>Set\<close> holds an object once; an object that is already a
  member stays where it is (and shows its new field values there).
\<close>

definition set_add :: "pack \<Rightarrow> pack list \<Rightarrow> pack list" where
  "set_add r fin =
     (if p_ref r \<in> set (map p_ref fin) then map (\<lambda>x. if p_ref x = p_ref r then r else x) fin
      else fin @ [r])"

text \<open>lodash's \<^verbatim>\<open>_.findIndex\<close>: the first index whose element satisfies the predicate, or -1.\<close>

fun findIndex :: "('a \<Rightarrow> bool) \<Rightarrow> 'a list \<Rightarrow> int" where
  "findIndex P [] = - 1"
| "findIndex P (x # xs) =
     (if P x then 0 else (let i = findIndex P xs in if i = - 1 then - 1 else i + 1))"

subsection \<open>The handlers of the transfer-engine events\<close>

text \<open>\<^verbatim>\<open>handle.xdccConnect(dbpack, pack)\<close>, with the setting \<^verbatim>\<open>xdcc:checkFilename\<close> and \<^verbatim>\<open>pack.fileName\<close>.\<close>

definition xdccConnect :: "bool \<Rightarrow> pack \<Rightarrow> string \<Rightarrow> state \<Rightarrow> outcome \<times> state" where
  "xdccConnect checkFilename dbpack fileName s =
     (case map_of (networks s) (p_network dbpack) of
        None \<Rightarrow> (Throw ''TypeError'', s)
      | Some nw \<Rightarrow>
          if checkFilename \<and> fileName \<noteq> p_name dbpack then
            (case map_of (nw_xdcc nw) (p_bot dbpack) of
               None \<Rightarrow> (Throw ''TypeError'', s)
             | Some [] \<Rightarrow> (Throw ''TypeError'', s)
             | Some (p # ps) \<Rightarrow>
                 (case p_xdcc p of
                    None \<Rightarrow> (Throw ''TypeError'', s)
                  | Some h \<Rightarrow> (Return, emit h Cancel s)))
          else (Return, s))"

text \<open>\<^verbatim>\<open>handle.xdccProgress(dbpack, pack)\<close>, with \<^verbatim>\<open>pack.status\<close>.\<close>

definition xdccProgress :: "pack \<Rightarrow> string \<Rightarrow> state \<Rightarrow> outcome \<times> state" where
  "xdccProgress dbpack status s =
     (case map_of (networks s) (p_network dbpack) of
        None \<Rightarrow> (Throw ''TypeError'', s)
      | Some nw \<Rightarrow>
          if status = ''canceled'' then
            (case map_of (nw_xdcc nw) (p_bot dbpack) of
               None \<Rightarrow> (Throw ''TypeError'', s)
             | Some q \<Rightarrow>
                 (let xdcc = tl q;
                      s1 = set_queue (p_network dbpack) (p_bot dbpack) xdcc s
                  in case advance (p_network dbpack) (p_bot dbpack) xdcc s1 of
                       None \<Rightarrow> (Throw ''TypeError'', s1)
                     | Some s2 \<Rightarrow> (Return, persist_shift (p_network dbpack) (p_bot dbpack) s2)))
          else (Return, s))"

text \<open>\<^verbatim>\<open>handle.xdccMessage\<close> only logs.\<close>

definition xdccMessage :: "pack \<Rightarrow> state \<Rightarrow> outcome \<times> state" where
  "xdccMessage dbpack s = (Return, s)"

text \<open>\<^verbatim>\<open>handle.xdccComplete(dbpack, pack)\<close>; \<open>eng\<close> gives the fields of the handles.\<close>

definition xdccComplete :: "(nat \<Rightarrow> axdcc) \<Rightarrow> pack \<Rightarrow> state \<Rightarrow> outcome \<times> state" where
  "xdccComplete eng dbpack s =
     (case map_of (networks s) (p_network dbpack) of
        None \<Rightarrow> (Throw ''TypeError'', s)
      | Some nw \<Rightarrow>
          (case map_of (nw_xdcc nw) (p_bot dbpack) of
             None \<Rightarrow> (Throw ''TypeError'', s)
           | Some [] \<Rightarrow> (Throw ''TypeError'', s)
           | Some (request # xdcc) \<Rightarrow>
               (let s1 = set_queue (p_network dbpack) (p_bot dbpack) xdcc s
                in case p_xdcc request of
                     None \<Rightarrow> (Throw ''TypeError'', s1)
                   | Some h \<Rightarrow>
                       (let request1 = request\<lparr>p_notices := Some (ax_notices (eng h)),
                                               p_xdcc := None\<rparr>;
                            s2 = s1\<lparr>finished := set_add request1 (finished s1)\<rparr>
                        in case advance (p_network dbpack) (p_bot dbpack) xdcc s2 of
                             None \<Rightarrow> (Throw ''TypeError'', s2)
                           | Some s3 \<Rightarrow>
                               (Return, persist_shift (p_network dbpack) (p_bot dbpack) s3)))))"

text \<open>
  \<^verbatim>\<open>addDownload(id, dontPersist)\<close> runs its two stages through \<^verbatim>\<open>async.waterfall\<close>: the
  first stage asks the document store, the second one runs when the store has answered, in
  a later turn of the event loop (the waterfall of the \<^verbatim>\<open>async\<close> version that the package
  file asks for, 1.5, defers the callback of a task that answers at once). The call itself
  therefore only issues the lookup.
\<close>

definition addDownload :: "string \<Rightarrow> bool \<Rightarrow> state \<Rightarrow> state" where
  "addDownload ident dontPersist s = s\<lparr>lookups := lookups s @ [(ident, dontPersist)]\<rparr>"

text \<open>\<^verbatim>\<open>handle.xdccError(dbpack, pack, error)\<close>\<close>

definition xdccError :: "pack \<Rightarrow> state \<Rightarrow> outcome \<times> state" where
  "xdccError dbpack s =
     (case map_of (networks s) (p_network dbpack) of
        None \<Rightarrow> (Throw ''TypeError'', s)
      | Some nw \<Rightarrow>
          (case map_of (nw_xdcc nw) (p_bot dbpack) of
             None \<Rightarrow> (Throw ''TypeError'', s)
           | Some [] \<Rightarrow> (Throw ''TypeError'', s)
           | Some (request # xdcc) \<Rightarrow>
               (let s1 = set_queue (p_network dbpack) (p_bot dbpack) xdcc s
                in case p_xdcc request of
                     None \<Rightarrow> (Throw ''TypeError'', s1)
                   | Some h \<Rightarrow>
                       (let s2 = emit h Kill s1;
                            s3 = addDownload (p_id request) False s2
                        in case advance (p_network dbpack) (p_bot dbpack) xdcc s3 of
                             None \<Rightarrow> (Throw ''TypeError'', s3)
                           | Some s4 \<Rightarrow>
                               (Return, persist_shift (p_network dbpack) (p_bot dbpack) s4)))))"

subsection \<open>The public operations\<close>

text \<open>
  The second stage of \<^verbatim>\<open>addDownload\<close>, entered with the answer of the document store. The
  new request gets the next free address, and so does the handle \<^verbatim>\<open>new Axdcc(...)\<close> made for
  it. The settings that configure the handle do not influence the manager and are left out.
\<close>

definition addDownload_found :: "bool \<Rightarrow> db_reply \<Rightarrow> state \<Rightarrow> outcome \<times> state" where
  "addDownload_found dontPersist reply s =
     (case reply of
        DbError \<Rightarrow> (Callback (JBool True), s)
      | DbNull \<Rightarrow> (Callback (JStr ''Pack not found''), s)
      | DbPack d \<Rightarrow>
          (case map_of (networks s) (d_network d) of
             None \<Rightarrow> (Callback (JStr ''Pack not found''), s)
           | Some nw \<Rightarrow>
               (let xdcc = (case map_of (nw_xdcc nw) (d_bot d) of None \<Rightarrow> [] | Some q \<Rightarrow> q);
                    s0 = set_queue (d_network d) (d_bot d) xdcc s;
                    i = findIndex (\<lambda>p. p_id p = d_id d) xdcc
                in if i \<noteq> - 1 then (Callback (JBool True), s0)
                   else
                     (let h = next_ref s0;
                          pack = \<lparr>p_ref = h, p_id = d_id d, p_network = d_network d,
                                  p_bot = d_bot d, p_name = d_name d, p_xdcc = Some h,
                                  p_notices = None\<rparr>;
                          xdcc1 = xdcc @ [pack];
                          s1 = (set_queue (d_network d) (d_bot d) xdcc1 s0)\<lparr>next_ref := Suc h\<rparr>;
                          s2 = (if length xdcc1 = 1 then emit h Start s1 else s1);
                          s3 = s2\<lparr>listeners := listeners s2 @ [(h, pack)]\<rparr>;
                          s4 = (if \<not> dontPersist
                                then persist_push (d_network d) (d_bot d)
                                       \<lparr>pe_pack = d_id d, pe_name = d_name d\<rparr> s3
                                else s3)
                      in (Callback JNull, s4)))))"

text \<open>
  \<^verbatim>\<open>cancelDownload(network, bot, id, cb)\<close>. Every path but the \<^verbatim>\<open>TypeError\<close> ends in a call
  of \<^verbatim>\<open>cb\<close>.
\<close>

definition cancelDownload ::
  "(nat \<Rightarrow> axdcc) \<Rightarrow> string \<Rightarrow> string \<Rightarrow> string \<Rightarrow> state \<Rightarrow> outcome \<times> state" where
  "cancelDownload eng network botnick ident s =
     (case map_of (networks s) network of
        None \<Rightarrow> (Callback (JStr ''Network not found''), s)
      | Some nw \<Rightarrow>
          (case map_of (nw_xdcc nw) botnick of
             None \<Rightarrow> (Callback (JStr ''No download pending from bot''), s)
           | Some [] \<Rightarrow> (Callback (JStr ''No download pending from bot''), s)
           | Some (x # xs) \<Rightarrow>
               (let xdccs = x # xs;
                    i = findIndex (\<lambda>p. p_id p = ident) xdccs
                in if i = - 1 then (Callback (JStr ''Pack not found''), s)
                   else
                     (case p_xdcc (xdccs ! nat i) of
                        None \<Rightarrow> (Throw ''TypeError'', s)
                      | Some h \<Rightarrow>
                          (let s1 = (if ax_status (eng h) \<noteq> ''created'' then emit h Cancel s
                                     else emit h Kill s);
                               s2 = set_queue network botnick
                                      (filter (\<lambda>p. \<not> p_id p = ident) xdccs) s1
                           in (Callback JNull, s2))))))"

text \<open>
  \<^verbatim>\<open>addNetwork(network, hostname, opts)\<close>. \<open>opts\<close> is \<open>None\<close> when the argument is not an
  object. The constructor of the session completes the object \<^verbatim>\<open>opts.ircOpts\<close> in place
  (the clone made before is shallow), so the persisted options carry the completed one.
\<close>

definition addNetwork ::
  "string \<Rightarrow> jsval \<Rightarrow> jsval \<Rightarrow> opts option \<Rightarrow> state \<Rightarrow> outcome \<times> state" where
  "addNetwork generated network hostname opts s =
     (case network of
        JStr name \<Rightarrow>
          if map_of (networks s) name \<noteq> None then (Throw ''network name not unique'', s)
          else
            (case opts of
               None \<Rightarrow> (Throw ''TypeError'', s)
             | Some ob \<Rightarrow>
                 (case SlingIrc_new generated hostname (ob\<lparr>o_onPackinfo := PackCallback\<rparr>) of
                    Inl e \<Rightarrow> (Throw e, s)
                  | Inr irc \<Rightarrow>
                      (let ob1 = (case o_ircOpts ob of
                                    None \<Rightarrow> ob
                                  | Some io \<Rightarrow> ob\<lparr>o_ircOpts := Some (i_clientOpt irc)\<rparr>);
                           c = AList.update name \<lparr>nc_hostname = hostname, nc_opts = Some ob1\<rparr> (nwc s)
                       in (Return,
                           s\<lparr>networks := AList.update name \<lparr>nw_irc = irc, nw_xdcc = []\<rparr> (networks s),
                             nwc := c, nwc_saved := c\<rparr>))))
      | _ \<Rightarrow> (Throw ''network must a string'', s))"

definition getNetwork :: "string \<Rightarrow> state \<Rightarrow> string + network" where
  "getNetwork network s =
     (case map_of (networks s) network of
        Some nw \<Rightarrow> Inr nw
      | None \<Rightarrow> Inl ''unknown network'')"

text \<open>
  \<^verbatim>\<open>removeNetwork(network, flush, cb)\<close>, with \<open>flush\<close> already a boolean. The call checks,
  then starts the disconnect and the flush; the network is deleted in the final callback of
  \<^verbatim>\<open>async.parallel\<close>, modelled by \<open>removeNetwork_done\<close> with the error of that callback.
\<close>

definition removeNetwork :: "string \<Rightarrow> bool \<Rightarrow> state \<Rightarrow> outcome \<times> state" where
  "removeNetwork network flush s =
     (case map_of (networks s) network of
        None \<Rightarrow> (Throw ''unknown network'', s)
      | Some nw \<Rightarrow>
          if obj_size (nw_xdcc nw) > 0 then (Throw ''downloads pending'', s)
          else (Return,
                s\<lparr>trace := trace s @ [Disconnect network] @ (if flush then [RemoveAll network] else []),
                  removals := removals s @ [network]\<rparr>))"

definition removeNetwork_done :: "string \<Rightarrow> bool \<Rightarrow> state \<Rightarrow> state" where
  "removeNetwork_done network err s =
     (let s1 = s\<lparr>removals := remove1 network (removals s)\<rparr>
      in if \<not> err
         then (let c = AList.delete network (nwc s1)
               in s1\<lparr>networks := AList.delete network (networks s1), nwc := c, nwc_saved := c\<rparr>)
         else s1)"

text \<open>
  \<^verbatim>\<open>boot()\<close>, with the two objects it reads from the configuration stores: the persisted
  networks and, per network and bot, the persisted pending lists.
\<close>

fun enqueueAll :: "string \<Rightarrow> string \<Rightarrow> pack_entry list \<Rightarrow> state \<Rightarrow> state" where
  "enqueueAll key b [] s = s"
| "enqueueAll key b (e # es) s =
     enqueueAll key b es (addDownload (key @ '':'' @ b @ '':'' @ pe_pack e) True s)"

fun bootBots :: "string \<Rightarrow> (string \<times> pack_entry list) list \<Rightarrow> state \<Rightarrow> state" where
  "bootBots key [] s = s"
| "bootBots key ((b, dls) # rest) s = bootBots key rest (enqueueAll key b dls s)"

fun boot ::
  "string \<Rightarrow> (channel \<Rightarrow> channel) \<Rightarrow> (string \<times> netconf) list \<Rightarrow>
   (string \<times> pack_entry list) list obj \<Rightarrow> state \<Rightarrow> outcome \<times> state" where
  "boot generated chanFromJSON [] jDownloads s = (Return, s)"
| "boot generated chanFromJSON ((key, nw) # rest) jDownloads s =
     (case nc_opts nw of
        None \<Rightarrow> (Throw ''TypeError'', s)
      | Some ob \<Rightarrow>
          (case fromJSON generated chanFromJSON
                  \<lparr>j_hostname = nc_hostname nw, j_nick = None,
                   j_opts = Some (ob\<lparr>o_onPackinfo := PackCallback\<rparr>),
                   j_errors = [], j_motd = [], j_notices = [], j_status = []\<rparr> of
             Inl e \<Rightarrow> (Throw e, s)
           | Inr irc \<Rightarrow>
               (let s1 = s\<lparr>networks := AList.update key \<lparr>nw_irc = irc, nw_xdcc = []\<rparr> (networks s)\<rparr>;
                    s2 = (case map_of jDownloads key of
                            None \<Rightarrow> s1
                          | Some bots \<Rightarrow> bootBots key bots s1)
                in boot generated chanFromJSON rest jDownloads s2)))"

subsection \<open>The event loop\<close>

text \<open>
  What the environment contributes to one turn: the current fields of the handles, the
  nickname the generator would give, the setting \<^verbatim>\<open>xdcc:checkFilename\<close>, and
  \<^verbatim>\<open>SlingChannel.fromJSON\<close>.
\<close>

record env =
  e_eng :: "nat \<Rightarrow> axdcc"
  e_generated :: string
  e_checkFilename :: bool
  e_chanFromJSON :: "channel \<Rightarrow> channel"

text \<open>
  One turn of the event loop is a call of a public operation, the answer of the document
  store to the \<open>i\<close>-th outstanding lookup, the end of a disconnect, or an event of the
  transfer handle \<open>h\<close>, delivered to the handler with the request bound to it; a handle
  without listeners has nobody to deliver to. The engine reports its events in turns of
  their own, never from inside a signal it receives. The environment is free in the order
  of the turns, and the answer to a lookup is whatever the store holds at that time.
\<close>

datatype action =
    AddNetwork jsval jsval "opts option"
  | RemoveNetwork string bool
  | RemoveNetworkDone string bool
  | AddDownload string bool
  | DbReply nat db_reply
  | CancelDownload string string string
  | Boot "(string \<times> netconf) list" "(string \<times> pack_entry list) list obj"
  | OnConnect nat string
  | OnProgress nat string
  | OnMessage nat
  | OnComplete nat
  | OnError nat

definition terminal :: "nat \<Rightarrow> state \<Rightarrow> state" where
  "terminal h s = s\<lparr>trace := trace s @ [Terminal h]\<rparr>"

fun step :: "env \<Rightarrow> action \<Rightarrow> state \<Rightarrow> state" where
  "step e (AddNetwork network hostname opts) s =
     snd (addNetwork (e_generated e) network hostname opts s)"
| "step e (RemoveNetwork network flush) s = snd (removeNetwork network flush s)"
| "step e (RemoveNetworkDone network err) s = removeNetwork_done network err s"
| "step e (AddDownload ident dontPersist) s = addDownload ident dontPersist s"
| "step e (DbReply i reply) s =
     (if i < length (lookups s)
      then snd (addDownload_found (snd (lookups s ! i)) reply
                  (s\<lparr>lookups := take i (lookups s) @ drop (Suc i) (lookups s)\<rparr>))
      else s)"
| "step e (CancelDownload network botnick ident) s =
     snd (cancelDownload (e_eng e) network botnick ident s)"
| "step e (Boot jNetwork jDownloads) s =
     snd (boot (e_generated e) (e_chanFromJSON e) jNetwork jDownloads s)"
| "step e (OnConnect h fileName) s =
     (case map_of (listeners s) h of
        None \<Rightarrow> s
      | Some dbpack \<Rightarrow> snd (xdccConnect (e_checkFilename e) dbpack fileName s))"
| "step e (OnProgress h status) s =
     (case map_of (listeners s) h of
        None \<Rightarrow> s
      | Some dbpack \<Rightarrow>
          snd (xdccProgress dbpack status (if status = ''canceled'' then terminal h s else s)))"
| "step e (OnMessage h) s =
     (case map_of (listeners s) h of
        None \<Rightarrow> s
      | Some dbpack \<Rightarrow> snd (xdccMessage dbpack s))"
| "step e (OnComplete h) s =
     (case map_of (listeners s) h of
        None \<Rightarrow> s
      | Some dbpack \<Rightarrow> snd (xdccComplete (e_eng e) dbpack (terminal h s)))"
| "step e (OnError h) s =
     (case map_of (listeners s) h of
        None \<Rightarrow> s
      | Some dbpack \<Rightarrow> snd (xdccError dbpack (terminal h s)))"

fun run :: "(env \<times> action) list \<Rightarrow> state \<Rightarrow> state" where
  "run [] s = s"
| "run ((e, a) # rest) s = run rest (step e a s)"

text \<open>The state of the module when it is loaded, with the contents of the two stores.\<close>

definition init_state :: "pack_entry list obj \<Rightarrow> netconf obj \<Rightarrow> state" where
  "init_state d n =
     \<lparr>networks = [], finished = [], dl = d, dl_saved = d, nwc = n, nwc_saved = n,
      trace = [], next_ref = 0, listeners = [], lookups = [], removals = []\<rparr>"

definition reachable :: "state \<Rightarrow> bool" where
  "reachable s = (\<exists>acts d n. s = run acts (init_state d n))"

subsection \<open>Active requests\<close>

text \<open>
  A handle is active when it has received a start signal and the engine has not reported
  the end of the transfer since; a request is active when its handle is.
\<close>

fun active_from :: "bool \<Rightarrow> nat \<Rightarrow> effect list \<Rightarrow> bool" where
  "active_from a h [] = a"
| "active_from a h (e # es) =
     active_from (if e = Signal h Start then True else if e = Terminal h then False else a) h es"

definition active :: "effect list \<Rightarrow> nat \<Rightarrow> bool" where
  "active tr h = active_from False h tr"

definition is_active :: "state \<Rightarrow> pack \<Rightarrow> bool" where
  "is_active s r = (case p_xdcc r of None \<Rightarrow> False | Some h \<Rightarrow> active (trace s) h)"

definition one_active_at_head :: "state \<Rightarrow> pack list \<Rightarrow> bool" where
  "one_active_at_head s q =
     (length (filter (is_active s) q) \<le> 1 \<and> list_all (\<lambda>r. \<not> is_active s r) (tl q))"

definition started :: "state \<Rightarrow> nat \<Rightarrow> bool" where
  "started s h = (Signal h Start \<in> set (trace s))"

subsection \<open>The invariant of the registry\<close>

text \<open>
  What holds of every queue of a reachable state: each request carries its own handle, is
  the request that the handlers of this handle are bound to, sits in the queue of its
  network and bot, and was made before the next free address; the requests of a queue
  differ in identity and in id; and no request behind the head has ever been started.
\<close>

definition queue_inv :: "state \<Rightarrow> string \<Rightarrow> string \<Rightarrow> pack list \<Rightarrow> bool" where
  "queue_inv s n b q =
     ((\<forall>r \<in> set q. p_xdcc r = Some (p_ref r) \<and> p_ref r < next_ref s \<and>
                    p_network r = n \<and> p_bot r = b \<and>
                    map_of (listeners s) (p_ref r) = Some r) \<and>
      distinct (map p_ref q) \<and> distinct (map p_id q) \<and>
      (\<forall>r \<in> set (tl q). \<not> started s (p_ref r)))"

definition registry_inv :: "state \<Rightarrow> bool" where
  "registry_inv s =
     ((\<forall>n b q. get_queue n b s = Some q \<longrightarrow> queue_inv s n b q) \<and>
      (\<forall>h sg. Signal h sg \<in> set (trace s) \<longrightarrow> h < next_ref s) \<and>
      (\<forall>h \<in> fst ` set (listeners s). h < next_ref s) \<and>
      distinct (map p_ref (finished s)))"

subsection \<open>The document store\<close>

text \<open>
  Modelled from the spec: \<^verbatim>\<open>SlingDB\<close> is not among the sources. The document store holds
  the announced pack offers and looks one up by its composite id
  \<^verbatim>\<open><network>:<bot>:<packNumber>\<close>, the id that \<^verbatim>\<open>boot\<close> builds for every persisted entry.
\<close>

definition composite_id :: "doc \<Rightarrow> string" where
  "composite_id d = d_network d @ '':'' @ d_bot d @ '':'' @ d_id d"

definition getItem :: "doc list \<Rightarrow> string \<Rightarrow> db_reply" where
  "getItem docs ident =
     (case find (\<lambda>d. composite_id d = ident) docs of
        None \<Rightarrow> DbNull
      | Some d \<Rightarrow> DbPack d)"

subsection \<open>The enqueuing branch\<close>

text \<open>
  The state that the second stage of \<^verbatim>\<open>addDownload\<close> leaves when it enqueues the document
  \<open>d\<close> behind the queue \<open>xdcc\<close>, before the pending list is persisted.
\<close>

definition enqueued :: "doc \<Rightarrow> pack list \<Rightarrow> state \<Rightarrow> state" where
  "enqueued d xdcc s =
     (let h = next_ref s;
          pack = \<lparr>p_ref = h, p_id = d_id d, p_network = d_network d, p_bot = d_bot d,
                  p_name = d_name d, p_xdcc = Some h, p_notices = None\<rparr>;
          s0 = set_queue (d_network d) (d_bot d) xdcc s;
          s1 = (set_queue (d_network d) (d_bot d) (xdcc @ [pack]) s0)\<lparr>next_ref := Suc h\<rparr>;
          s2 = (if xdcc = [] then emit h Start s1 else s1)
      in s2\<lparr>listeners := listeners s2 @ [(h, pack)]\<rparr>)"

subsection \<open>A sample run\<close>

text \<open>
  One network, one bot, two downloads enqueued: the first one is started, the second one
  waits behind it. \<open>ex_one\<close> is the same run with the first download only.
\<close>

definition ex_env :: env where
  "ex_env = \<lparr>e_eng = (\<lambda>h. \<lparr>ax_notices = [''sending file''], ax_status = ''created''\<rparr>),
             e_generated = ''Nomi42'', e_checkFilename = False, e_chanFromJSON = (\<lambda>c. c)\<rparr>"

definition ex_opts :: opts where
  "ex_opts = \<lparr>o_nick = Some ''sling'', o_channels = None, o_ircOpts = None,
              o_commands = None, o_onPackinfo = NoCallback\<rparr>"

definition ex_doc :: "string \<Rightarrow> doc" where
  "ex_doc i = \<lparr>d_id = i, d_network = ''net'', d_bot = ''xbot'', d_name = ''file'' @ i\<rparr>"

definition ex_pack :: "nat \<Rightarrow> string \<Rightarrow> pack" where
  "ex_pack h i = \<lparr>p_ref = h, p_id = i, p_network = ''net'', p_bot = ''xbot'',
                  p_name = ''file'' @ i, p_xdcc = Some h, p_notices = None\<rparr>"



definition ex_acts :: "(env \<times> action) list" where
  "ex_acts =
     [(ex_env, AddNetwork (JStr ''net'') (JStr ''irc.example.org'') (Some ex_opts)),
      (ex_env, AddDownload ''net:xbot:5'' False),
      (ex_env, AddDownload ''net:xbot:6'' False),
      (ex_env, DbReply 0 (DbPack (ex_doc ''5''))),
      (ex_env, DbReply 0 (DbPack (ex_doc ''6'')))]"

text \<open>The document store behind the sample run, and a session that is connected.\<close>

definition ex_docs :: "doc list" where
  "ex_docs = [ex_doc ''5'', ex_doc ''6'']"

definition ex_session :: slingirc where
  "ex_session =
     \<lparr>i_hostname = ''irc.example.org'', i_nick = ''sling'',
      i_commands = [''/msg nickserv identify secret''], i_chans = [],
      i_status = ''connected'', i_errors = [], i_motd = ''welcome'', i_notices = [],
      i_packCb = PackCallback, i_clientOpt = []\<rparr>"

definition ex_state :: state where
  "ex_state = run ex_acts (init_state [] [])"

definition ex_one :: state where
  "ex_one = run (take 4 ex_acts) (init_state [] [])"

section \<open>Properties\<close>

subsection \<open>Facts about the helpers\<close>

lemma number_exact: "\<bar>m\<bar> < 2 ^ 53 \<Longrightarrow> number m = Num m"
proof -
  assume a: "\<bar>m\<bar> < 2 ^ 53"
  then have "to_double \<bar>m\<bar> = Some \<bar>m\<bar>" by (simp add: to_double_def)
  then show ?thesis by (simp add: number_def)
qed

lemma times_1024_exact:
  "\<bar>n\<bar> * 1024 ^ j < 2 ^ 53 \<Longrightarrow> (times_1024 ^^ j) (Num n) = Num (n * 1024 ^ j)"
proof (induction j)
  case 0
  then show ?case by simp
next
  case (Suc j)
  have le: "\<bar>n\<bar> * 1024 ^ j \<le> \<bar>n\<bar> * 1024 ^ Suc j"
    by (simp add: mult_left_mono)
  with Suc.prems have "\<bar>n\<bar> * 1024 ^ j < 2 ^ 53" by linarith
  then have ih: "(times_1024 ^^ j) (Num n) = Num (n * 1024 ^ j)" by (rule Suc.IH)
  have "\<bar>n * 1024 ^ j * 1024\<bar> < 2 ^ 53" using Suc.prems by (simp add: abs_mult mult.assoc)
  then have "number (n * 1024 ^ j * 1024) = Num (n * 1024 ^ j * 1024)" by (rule number_exact)
  then show ?case using ih by (simp add: mult.assoc)
qed

lemma run_cases_labels:
  "run_cases case_labels False u v =
     (if u = ''t'' then ((times_1024 ^^ 4) v, True)
      else if u = ''g'' then ((times_1024 ^^ 3) v, True)
      else if u = ''m'' then ((times_1024 ^^ 2) v, True)
      else if u = ''k'' then ((times_1024 ^^ 1) v, True)
      else (v, False))"
  by (simp add: case_labels_def numeral_eq_Suc)

lemma normalizeSize_strings:
  assumes "map_of packData ''sizeUnit'' = Some (JStr unit)"
    and "map_of packData ''size'' = Some (JStr sz)"
  shows "normalizeSize packData =
     (let r = run_cases case_labels False (toLowerCase unit) (parseInt sz);
          packData1 = AList.update ''size'' (JNumber (fst r)) packData
      in if snd r then AList.delete ''sizeUnit'' packData1 else packData1)"
  using assms by (simp add: normalizeSize_def Let_def split_beta)

lemma packParse_examples:
  "packParse [''size'', ''sizeUnit''] (Some [JStr ''100K'', JStr ''100'', JStr ''K''])
     = Some [(''size'', JNumber (Num 102400))]"
  "packParse [''size'', ''sizeUnit''] (Some [JStr ''1M'', JStr ''1'', JStr ''M''])
     = Some [(''size'', JNumber (Num 1048576))]"
  "packParse [''size'', ''sizeUnit''] (Some [JStr ''1X'', JStr ''1'', JStr ''X''])
     = Some [(''size'', JNumber (Num 1)), (''sizeUnit'', JStr ''X'')]"
  by code_simp+

lemma obj_size_pos: "obj_size ob > 0 \<longleftrightarrow> ob \<noteq> []"
  by (cases ob) (auto simp: obj_size_def)

lemma map_of_obj_size: "map_of ob k = Some v \<Longrightarrow> obj_size ob > 0"
  by (cases ob) (auto simp: obj_size_def)

lemma get_queue_SomeD:
  "get_queue n b s = Some q \<Longrightarrow>
     \<exists>nw. map_of (networks s) n = Some nw \<and> map_of (nw_xdcc nw) b = Some q"
  by (auto simp: get_queue_def split: option.splits)

lemma get_queue_set_queue:
  "map_of (networks s) n \<noteq> None \<Longrightarrow>
     get_queue n' b' (set_queue n b q s) = (if n' = n \<and> b' = b then Some q else get_queue n' b' s)"
  by (auto simp: get_queue_def set_queue_def update_conv' split: option.splits)

lemma findIndex_ge: "- 1 \<le> findIndex P xs"
  by (induction xs) (auto simp: Let_def)

lemma findIndex_neg: "findIndex P xs = - 1 \<longleftrightarrow> (\<forall>x \<in> set xs. \<not> P x)"
proof (induction xs)
  case Nil
  then show ?case by simp
next
  case (Cons x xs)
  then show ?case using findIndex_ge [of P xs] by (auto simp: Let_def)
qed

lemma removeNetwork_pending:
  "get_queue network b s = Some q \<Longrightarrow>
     removeNetwork network flush s = (Throw ''downloads pending'', s)"
  by (auto simp: removeNetwork_def dest!: get_queue_SomeD dest: map_of_obj_size)

lemma ex_state_queue:
  "get_queue ''net'' ''xbot'' ex_state = Some [ex_pack 0 ''5'', ex_pack 1 ''6'']"
  by code_simp

lemma ex_state_trace: "trace ex_state = [Signal 0 Start]"
  by code_simp

lemma ex_one_queue: "get_queue ''net'' ''xbot'' ex_one = Some [ex_pack 0 ''5'']"
  by code_simp

subsection \<open>Size normalisation of the announcement parser\<close>

text \<open>
  Claim C8. When the record mapped from a matched announcement holds both \<^verbatim>\<open>size\<close> and
  \<^verbatim>\<open>sizeUnit\<close> as strings, the unit is compared in lower case, the size is parsed as an
  integer and multiplied by 1024 once for \<^verbatim>\<open>k\<close>, twice for \<^verbatim>\<open>m\<close>, three times for \<^verbatim>\<open>g\<close> and
  four times for \<^verbatim>\<open>t\<close>, and the unit field is removed. As long as the result stays below
  \<open>2^53\<close>, \<open>j\<close> multiplications of the parsed integer \<open>n\<close> give the integer
  \<open>n * 1024^j\<close>. Any other unit leaves the parsed number unscaled and the unit field in
  place. Size \<^verbatim>\<open>"100"\<close> with unit \<^verbatim>\<open>"K"\<close> gives 102400, size \<^verbatim>\<open>"1"\<close> with unit \<^verbatim>\<open>"M"\<close> gives
  1048576, and unit \<^verbatim>\<open>"X"\<close> keeps the number and the unit.
\<close>

theorem packParse_size_scaling:
  assumes unit: "map_of (mapGroups groupOrder groups 0 []) ''sizeUnit'' = Some (JStr unit)"
    and sz: "map_of (mapGroups groupOrder groups 0 []) ''size'' = Some (JStr sz)"
  shows "(\<exists>packData. packParse groupOrder (Some groups) = Some packData \<and>
      (toLowerCase unit = ''k'' \<longrightarrow>
         map_of packData ''size'' = Some (JNumber ((times_1024 ^^ 1) (parseInt sz))) \<and>
         map_of packData ''sizeUnit'' = None) \<and>
      (toLowerCase unit = ''m'' \<longrightarrow>
         map_of packData ''size'' = Some (JNumber ((times_1024 ^^ 2) (parseInt sz))) \<and>
         map_of packData ''sizeUnit'' = None) \<and>
      (toLowerCase unit = ''g'' \<longrightarrow>
         map_of packData ''size'' = Some (JNumber ((times_1024 ^^ 3) (parseInt sz))) \<and>
         map_of packData ''sizeUnit'' = None) \<and>
      (toLowerCase unit = ''t'' \<longrightarrow>
         map_of packData ''size'' = Some (JNumber ((times_1024 ^^ 4) (parseInt sz))) \<and>
         map_of packData ''sizeUnit'' = None) \<and>
      (toLowerCase unit \<notin> {''k'', ''m'', ''g'', ''t''} \<longrightarrow>
         map_of packData ''size'' = Some (JNumber (parseInt sz)) \<and>
         map_of packData ''sizeUnit'' = Some (JStr unit))) \<and>
    (\<forall>n j. \<bar>n\<bar> * 1024 ^ j < 2 ^ 53 \<longrightarrow> (times_1024 ^^ j) (Num n) = Num (n * 1024 ^ j)) \<and>
    packParse [''size'', ''sizeUnit''] (Some [JStr ''100K'', JStr ''100'', JStr ''K''])
      = Some [(''size'', JNumber (Num 102400))] \<and>
    packParse [''size'', ''sizeUnit''] (Some [JStr ''1M'', JStr ''1'', JStr ''M''])
      = Some [(''size'', JNumber (Num 1048576))] \<and>
    packParse [''size'', ''sizeUnit''] (Some [JStr ''1X'', JStr ''1'', JStr ''X''])
      = Some [(''size'', JNumber (Num 1)), (''sizeUnit'', JStr ''X'')]"
proof -
  have 1: "\<exists>packData. packParse groupOrder (Some groups) = Some packData \<and>
      (toLowerCase unit = ''k'' \<longrightarrow>
         map_of packData ''size'' = Some (JNumber ((times_1024 ^^ 1) (parseInt sz))) \<and>
         map_of packData ''sizeUnit'' = None) \<and>
      (toLowerCase unit = ''m'' \<longrightarrow>
         map_of packData ''size'' = Some (JNumber ((times_1024 ^^ 2) (parseInt sz))) \<and>
         map_of packData ''sizeUnit'' = None) \<and>
      (toLowerCase unit = ''g'' \<longrightarrow>
         map_of packData ''size'' = Some (JNumber ((times_1024 ^^ 3) (parseInt sz))) \<and>
         map_of packData ''sizeUnit'' = None) \<and>
      (toLowerCase unit = ''t'' \<longrightarrow>
         map_of packData ''size'' = Some (JNumber ((times_1024 ^^ 4) (parseInt sz))) \<and>
         map_of packData ''sizeUnit'' = None) \<and>
      (toLowerCase unit \<notin> {''k'', ''m'', ''g'', ''t''} \<longrightarrow>
         map_of packData ''size'' = Some (JNumber (parseInt sz)) \<and>
         map_of packData ''sizeUnit'' = Some (JStr unit))"
    by (simp add: packParse_def normalizeSize_strings [OF unit sz] run_cases_labels
          update_conv' delete_conv' unit del: funpow.simps)
  have 2: "\<forall>n j. \<bar>n\<bar> * 1024 ^ j < 2 ^ 53 \<longrightarrow> (times_1024 ^^ j) (Num n) = Num (n * 1024 ^ j)"
    by (simp add: times_1024_exact)
  show ?thesis using 1 2 packParse_examples by (intro conjI) assumption+
qed

theorem packParse_size_scaling_witness:
  "map_of (mapGroups [''size'', ''sizeUnit''] [JStr ''2g'', JStr ''2'', JStr ''g''] 0 [])
      ''sizeUnit'' = Some (JStr ''g'') \<and>
   map_of (mapGroups [''size'', ''sizeUnit''] [JStr ''2g'', JStr ''2'', JStr ''g''] 0 [])
      ''size'' = Some (JStr ''2'') \<and>
   \<bar>2 :: int\<bar> * 1024 ^ 3 < 2 ^ 53 \<and>
   (\<exists>packData.
      packParse [''size'', ''sizeUnit''] (Some [JStr ''2g'', JStr ''2'', JStr ''g'']) = Some packData \<and>
      map_of packData ''size'' = Some (JNumber (Num 2147483648)) \<and>
      map_of packData ''sizeUnit'' = None)"
proof -
  have u: "map_of (mapGroups [''size'', ''sizeUnit''] [JStr ''2g'', JStr ''2'', JStr ''g''] 0 [])
      ''sizeUnit'' = Some (JStr ''g'')"
    by (simp add: js_index_def)
  have s: "map_of (mapGroups [''size'', ''sizeUnit''] [JStr ''2g'', JStr ''2'', JStr ''g''] 0 [])
      ''size'' = Some (JStr ''2'')"
    by (simp add: js_index_def)
  have l: "toLowerCase ''g'' = ''g''" by code_simp
  have p: "parseInt ''2'' = Num 2" by code_simp
  have b: "\<bar>2 :: int\<bar> * 1024 ^ 3 < 2 ^ 53" by simp
  note t = packParse_size_scaling [OF u s]
  from t have e: "(times_1024 ^^ 3) (Num 2) = Num (2 * 1024 ^ 3)" using b by blast
  from t obtain packData where
    pd: "packParse [''size'', ''sizeUnit''] (Some [JStr ''2g'', JStr ''2'', JStr ''g'']) = Some packData"
    and g: "toLowerCase ''g'' = ''g'' \<longrightarrow>
         map_of packData ''size'' = Some (JNumber ((times_1024 ^^ 3) (parseInt ''2''))) \<and>
         map_of packData ''sizeUnit'' = None"
    by blast
  have "map_of packData ''size'' = Some (JNumber (Num 2147483648))"
       "map_of packData ''sizeUnit'' = None"
    using g l p e by simp_all
  then show ?thesis using u s b pd by blast
qed

subsection \<open>Removal of a network\<close>

text \<open>
  Claim C5. \<^verbatim>\<open>removeNetwork\<close> fails when the name is not registered and when some transfer
  queue of the network is not empty, and a failed call changes nothing: the state after the
  call is the state before it, so the network is still registered, no disconnect was sent
  and the persisted configuration is as it was.
\<close>

theorem removeNetwork_refused:
  "(map_of (networks s) network = None \<longrightarrow>
      removeNetwork network flush s = (Throw ''unknown network'', s)) \<and>
   (\<forall>b q. get_queue network b s = Some q \<and> q \<noteq> [] \<longrightarrow>
      removeNetwork network flush s = (Throw ''downloads pending'', s))"
  by (auto simp: removeNetwork_pending) (simp add: removeNetwork_def)

theorem removeNetwork_refused_witness:
  "get_queue ''net'' ''xbot'' ex_state \<noteq> Some [] \<and>
   get_queue ''net'' ''xbot'' ex_state \<noteq> None \<and>
   map_of (networks ex_state) ''gone'' = None \<and>
   removeNetwork ''gone'' True ex_state = (Throw ''unknown network'', ex_state) \<and>
   removeNetwork ''net'' True ex_state = (Throw ''downloads pending'', ex_state) \<and>
   map_of (networks (snd (removeNetwork ''net'' True ex_state))) ''net'' \<noteq> None \<and>
   Disconnect ''net'' \<notin> set (trace (snd (removeNetwork ''net'' True ex_state))) \<and>
   map_of (nwc_saved (snd (removeNetwork ''net'' True ex_state))) ''net'' \<noteq> None"
proof -
  have q: "get_queue ''net'' ''xbot'' ex_state \<noteq> Some []"
          "get_queue ''net'' ''xbot'' ex_state \<noteq> None"
    by (simp_all add: ex_state_queue)
  have g: "map_of (networks ex_state) ''gone'' = None" by code_simp
  have r: "removeNetwork ''gone'' True ex_state = (Throw ''unknown network'', ex_state)"
          "removeNetwork ''net'' True ex_state = (Throw ''downloads pending'', ex_state)"
    using removeNetwork_refused [of ex_state "''gone''" True]
          removeNetwork_refused [of ex_state "''net''" True] q g by auto
  have n: "map_of (networks ex_state) ''net'' \<noteq> None" by code_simp
  have d: "Disconnect ''net'' \<notin> set (trace ex_state)" by (simp add: ex_state_trace)
  have c: "map_of (nwc_saved ex_state) ''net'' \<noteq> None" by code_simp
  show ?thesis using q g r n d c by simp
qed

text \<open>
  Claim C10. When \<^verbatim>\<open>cancelDownload\<close> removes the only request of a bot's queue, the entry of
  the bot stays in the queue map of the network, holding the empty queue; the map is
  therefore not empty, and a following \<^verbatim>\<open>removeNetwork\<close> fails with "downloads pending".
\<close>

theorem cancel_last_keeps_entry:
  assumes q: "get_queue network b s = Some [r]"
    and r: "p_id r = ident" "p_xdcc r = Some h"
  shows "\<exists>s'. cancelDownload eng network b ident s = (Callback JNull, s') \<and>
           get_queue network b s' = Some [] \<and>
           (\<exists>nw. map_of (networks s') network = Some nw \<and> obj_size (nw_xdcc nw) > 0) \<and>
           removeNetwork network flush s' = (Throw ''downloads pending'', s')"
proof -
  from q obtain nw
    where nw: "map_of (networks s) network = Some nw" "map_of (nw_xdcc nw) b = Some [r]"
    by (auto dest: get_queue_SomeD)
  let ?s1 = "if ax_status (eng h) \<noteq> ''created'' then emit h Cancel s else emit h Kill s"
  let ?s' = "set_queue network b [] ?s1"
  have c: "cancelDownload eng network b ident s = (Callback JNull, ?s')"
    using nw r by (simp add: cancelDownload_def)
  have n1: "map_of (networks ?s1) network \<noteq> None" using nw by (simp add: emit_def)
  have g: "get_queue network b ?s' = Some []"
    using get_queue_set_queue [OF n1] by simp
  from g obtain nw'
    where nw': "map_of (networks ?s') network = Some nw'" "map_of (nw_xdcc nw') b = Some []"
    by (auto dest: get_queue_SomeD)
  show ?thesis
    using c g nw' removeNetwork_pending [OF g] map_of_obj_size [OF nw'(2)] by auto
qed

theorem cancel_last_keeps_entry_witness:
  "get_queue ''net'' ''xbot'' ex_one = Some [ex_pack 0 ''5''] \<and>
   (\<exists>s'. cancelDownload (e_eng ex_env) ''net'' ''xbot'' ''5'' ex_one = (Callback JNull, s') \<and>
         get_queue ''net'' ''xbot'' s' = Some [] \<and>
         removeNetwork ''net'' False s' = (Throw ''downloads pending'', s'))"
proof -
  have i: "p_id (ex_pack 0 ''5'') = ''5''" "p_xdcc (ex_pack 0 ''5'') = Some 0"
    by (simp_all add: ex_pack_def)
  show ?thesis
    using cancel_last_keeps_entry [OF ex_one_queue i, of "e_eng ex_env" False] ex_one_queue
    by auto
qed

subsection \<open>The invariant is preserved\<close>

lemma emit_fields [simp]:
  "trace (emit h sg s) = trace s @ [Signal h sg]"
  "next_ref (emit h sg s) = next_ref s"
  "listeners (emit h sg s) = listeners s"
  "finished (emit h sg s) = finished s"
  "networks (emit h sg s) = networks s"
  "lookups (emit h sg s) = lookups s"
  "dl (emit h sg s) = dl s"
  "dl_saved (emit h sg s) = dl_saved s"
  by (simp_all add: emit_def)

lemma terminal_fields [simp]:
  "trace (terminal h s) = trace s @ [Terminal h]"
  "next_ref (terminal h s) = next_ref s"
  "listeners (terminal h s) = listeners s"
  "finished (terminal h s) = finished s"
  "networks (terminal h s) = networks s"
  by (simp_all add: terminal_def)

lemma set_queue_fields [simp]:
  "trace (set_queue n b q s) = trace s"
  "next_ref (set_queue n b q s) = next_ref s"
  "listeners (set_queue n b q s) = listeners s"
  "finished (set_queue n b q s) = finished s"
  "lookups (set_queue n b q s) = lookups s"
  "dl (set_queue n b q s) = dl s"
  "dl_saved (set_queue n b q s) = dl_saved s"
  by (simp_all add: set_queue_def split: option.splits)

lemma delete_queue_fields [simp]:
  "trace (delete_queue n b s) = trace s"
  "next_ref (delete_queue n b s) = next_ref s"
  "listeners (delete_queue n b s) = listeners s"
  "finished (delete_queue n b s) = finished s"
  "lookups (delete_queue n b s) = lookups s"
  "dl (delete_queue n b s) = dl s"
  "dl_saved (delete_queue n b s) = dl_saved s"
  by (simp_all add: delete_queue_def split: option.splits)

lemma persist_shift_fields [simp]:
  "trace (persist_shift n b s) = trace s"
  "next_ref (persist_shift n b s) = next_ref s"
  "listeners (persist_shift n b s) = listeners s"
  "finished (persist_shift n b s) = finished s"
  "networks (persist_shift n b s) = networks s"
  "lookups (persist_shift n b s) = lookups s"
  by (simp_all add: persist_shift_def Let_def)

lemma persist_push_fields [simp]:
  "trace (persist_push n b e s) = trace s"
  "next_ref (persist_push n b e s) = next_ref s"
  "listeners (persist_push n b e s) = listeners s"
  "finished (persist_push n b e s) = finished s"
  "networks (persist_push n b e s) = networks s"
  "lookups (persist_push n b e s) = lookups s"
  by (simp_all add: persist_push_def Let_def)

lemma addDownload_fields [simp]:
  "trace (addDownload i d s) = trace s"
  "next_ref (addDownload i d s) = next_ref s"
  "listeners (addDownload i d s) = listeners s"
  "finished (addDownload i d s) = finished s"
  "networks (addDownload i d s) = networks s"
  "lookups (addDownload i d s) = lookups s @ [(i, d)]"
  "dl (addDownload i d s) = dl s"
  "dl_saved (addDownload i d s) = dl_saved s"
  by (simp_all add: addDownload_def)

lemma get_queue_networks: "networks s' = networks s \<Longrightarrow> get_queue n b s' = get_queue n b s"
  by (simp add: get_queue_def)

lemma get_queue_simps [simp]:
  "get_queue n b (emit h sg s) = get_queue n b s"
  "get_queue n b (terminal h s) = get_queue n b s"
  "get_queue n b (persist_shift n' b' s) = get_queue n b s"
  "get_queue n b (persist_push n' b' e s) = get_queue n b s"
  "get_queue n b (addDownload i d s) = get_queue n b s"
  by (simp_all add: get_queue_def)

lemma get_queue_delete_queue:
  "get_queue n' b' (delete_queue n b s) =
     (if n' = n \<and> b' = b then None else get_queue n' b' s)"
  by (auto simp: get_queue_def delete_queue_def update_conv' delete_conv' split: option.splits)

lemma get_queue_set_queue':
  "get_queue n' b' (set_queue n b q s) =
     (if map_of (networks s) n = None then get_queue n' b' s
      else if n' = n \<and> b' = b then Some q else get_queue n' b' s)"
  by (auto simp: get_queue_def set_queue_def update_conv' split: option.splits)

lemma map_of_networks_set_queue [simp]:
  "(map_of (networks (set_queue n b q s)) n' = None) = (map_of (networks s) n' = None)"
  by (auto simp: set_queue_def update_conv' split: option.splits)

lemma map_of_networks_delete_queue [simp]:
  "(map_of (networks (delete_queue n b s)) n' = None) = (map_of (networks s) n' = None)"
  by (auto simp: delete_queue_def update_conv' split: option.splits)


lemma in_set_tl: "x \<in> set (tl q) \<Longrightarrow> x \<in> set q"
  by (cases q) auto

lemma registry_invI:
  assumes "\<And>n b q. get_queue n b s = Some q \<Longrightarrow> queue_inv s n b q"
    and "\<And>h sg. Signal h sg \<in> set (trace s) \<Longrightarrow> h < next_ref s"
    and "\<And>h. h \<in> fst ` set (listeners s) \<Longrightarrow> h < next_ref s"
    and "distinct (map p_ref (finished s))"
  shows "registry_inv s"
  using assms unfolding registry_inv_def by blast

lemma inv_queueD:
  "registry_inv s \<Longrightarrow> get_queue n b s = Some q \<Longrightarrow> queue_inv s n b q"
  unfolding registry_inv_def by blast

lemma inv_traceD: "registry_inv s \<Longrightarrow> Signal h sg \<in> set (trace s) \<Longrightarrow> h < next_ref s"
  unfolding registry_inv_def by blast

lemma inv_listenersD: "registry_inv s \<Longrightarrow> h \<in> fst ` set (listeners s) \<Longrightarrow> h < next_ref s"
  unfolding registry_inv_def by blast

lemma inv_finishedD: "registry_inv s \<Longrightarrow> distinct (map p_ref (finished s))"
  unfolding registry_inv_def by blast

lemma queue_inv_elem:
  "queue_inv s n b q \<Longrightarrow> r \<in> set q \<Longrightarrow>
     p_xdcc r = Some (p_ref r) \<and> p_ref r < next_ref s \<and> p_network r = n \<and> p_bot r = b \<and>
     map_of (listeners s) (p_ref r) = Some r"
  unfolding queue_inv_def by blast

lemma queue_inv_distinct:
  "queue_inv s n b q \<Longrightarrow> distinct (map p_ref q) \<and> distinct (map p_id q)"
  unfolding queue_inv_def by blast

lemma queue_inv_tail: "queue_inv s n b q \<Longrightarrow> r \<in> set (tl q) \<Longrightarrow> \<not> started s (p_ref r)"
  unfolding queue_inv_def by blast

text \<open>A queue that satisfied the invariant keeps it in a later state.\<close>

lemma queue_invI:
  assumes "\<And>r. r \<in> set q \<Longrightarrow> p_xdcc r = Some (p_ref r)"
    and "\<And>r. r \<in> set q \<Longrightarrow> p_ref r < next_ref s"
    and "\<And>r. r \<in> set q \<Longrightarrow> p_network r = n"
    and "\<And>r. r \<in> set q \<Longrightarrow> p_bot r = b"
    and "\<And>r. r \<in> set q \<Longrightarrow> map_of (listeners s) (p_ref r) = Some r"
    and "distinct (map p_ref q)" and "distinct (map p_id q)"
    and "\<And>r. r \<in> set (tl q) \<Longrightarrow> \<not> started s (p_ref r)"
  shows "queue_inv s n b q"
  unfolding queue_inv_def using assms by blast

lemma queue_inv_later:
  assumes qi: "queue_inv s n b q"
    and nr: "next_ref s \<le> next_ref s'"
    and ls: "\<And>r. r \<in> set q \<Longrightarrow> map_of (listeners s') (p_ref r) = map_of (listeners s) (p_ref r)"
    and st: "\<And>r. r \<in> set (tl q) \<Longrightarrow> started s' (p_ref r) \<Longrightarrow> started s (p_ref r)"
  shows "queue_inv s' n b q"
proof (rule queue_invI)
  fix r assume r: "r \<in> set q"
  note e = queue_inv_elem [OF qi r]
  show "p_xdcc r = Some (p_ref r)" "p_network r = n" "p_bot r = b" using e by simp_all
  show "p_ref r < next_ref s'" using e nr by simp
  show "map_of (listeners s') (p_ref r) = Some r" using e ls [OF r] by simp
next
  show "distinct (map p_ref q)" "distinct (map p_id q)"
    using queue_inv_distinct [OF qi] by simp_all
next
  fix r assume r: "r \<in> set (tl q)"
  show "\<not> started s' (p_ref r)" using st [OF r] queue_inv_tail [OF qi r] by blast
qed

text \<open>A part of a queue, in the same state.\<close>

lemma queue_inv_sub:
  assumes qi: "queue_inv s n b q"
    and sub: "set q' \<subseteq> set q" "set (tl q') \<subseteq> set (tl q)"
    and d: "distinct (map p_ref q')" "distinct (map p_id q')"
  shows "queue_inv s n b q'"
proof (rule queue_invI)
  fix r assume r: "r \<in> set q'"
  then have "r \<in> set q" using sub by blast
  note e = queue_inv_elem [OF qi this]
  show "p_xdcc r = Some (p_ref r)" "p_network r = n" "p_bot r = b" 
       "p_ref r < next_ref s" "map_of (listeners s) (p_ref r) = Some r" using e by simp_all
next
  show "distinct (map p_ref q')" "distinct (map p_id q')" using d by simp_all
next
  fix r assume "r \<in> set (tl q')"
  then have "r \<in> set (tl q)" using sub by blast
  then show "\<not> started s (p_ref r)" by (rule queue_inv_tail [OF qi])
qed

lemma queue_inv_Nil [simp]: "queue_inv s n b []"
  by (simp add: queue_inv_def)

lemma inv_cong:
  assumes "\<And>n b. get_queue n b s' = get_queue n b s"
    and "trace s' = trace s" "next_ref s' = next_ref s"
    and "listeners s' = listeners s" "finished s' = finished s"
  shows "registry_inv s' = registry_inv s"
  using assms by (simp add: registry_inv_def queue_inv_def started_def)

lemma inv_persist_shift [simp]: "registry_inv (persist_shift n b s) = registry_inv s"
  by (rule inv_cong) simp_all

lemma inv_persist_push [simp]: "registry_inv (persist_push n b e s) = registry_inv s"
  by (rule inv_cong) simp_all

lemma inv_addDownload [simp]: "registry_inv (addDownload i d s) = registry_inv s"
  by (rule inv_cong) simp_all

lemma inv_lookups [simp]: "registry_inv (s\<lparr>lookups := l\<rparr>) = registry_inv s"
  by (rule inv_cong) (simp_all add: get_queue_def)

lemma started_emit: "started (emit h sg s) h' = (started s h' \<or> (h' = h \<and> sg = Start))"
  by (auto simp: started_def)

lemma started_terminal [simp]: "started (terminal h s) h' = started s h'"
  by (auto simp: started_def)

lemma started_trace: "trace s' = trace s \<Longrightarrow> started s' h = started s h"
  by (simp add: started_def)

lemma inv_terminal [simp]: "registry_inv (terminal h s) = registry_inv s"
  by (simp add: registry_inv_def queue_inv_def)

lemma inv_emit_other:
  assumes i: "registry_inv s" and h: "h < next_ref s" and sg: "sg \<noteq> Start"
  shows "registry_inv (emit h sg s)"
proof (rule registry_invI)
  fix n b q assume "get_queue n b (emit h sg s) = Some q"
  then have "queue_inv s n b q" using i by (simp add: inv_queueD)
  then show "queue_inv (emit h sg s) n b q"
    by (rule queue_inv_later) (simp_all add: started_emit sg)
next
  fix h' sg' assume "Signal h' sg' \<in> set (trace (emit h sg s))"
  then show "h' < next_ref (emit h sg s)" using inv_traceD [OF i] h by auto
next
  fix h' assume "h' \<in> fst ` set (listeners (emit h sg s))"
  then show "h' < next_ref (emit h sg s)" using inv_listenersD [OF i] by simp
next
  show "distinct (map p_ref (finished (emit h sg s)))" using inv_finishedD [OF i] by simp
qed

lemma inv_emit_start_head:
  assumes i: "registry_inv s" and q: "get_queue n b s = Some (p # ps)"
  shows "registry_inv (emit (p_ref p) Start s)"
proof (rule registry_invI)
  have qi: "queue_inv s n b (p # ps)" using i q by (rule inv_queueD)
  have pe: "map_of (listeners s) (p_ref p) = Some p" "p_network p = n" "p_bot p = b"
           "p_ref p < next_ref s"
    using queue_inv_elem [OF qi, of p] by simp_all
  {
    fix n' b' q' assume q': "get_queue n' b' (emit (p_ref p) Start s) = Some q'"
    then have g: "get_queue n' b' s = Some q'" by simp
    have qi': "queue_inv s n' b' q'" using i g by (rule inv_queueD)
    show "queue_inv (emit (p_ref p) Start s) n' b' q'"
    proof (rule queue_inv_later [OF qi'])
      fix r assume r: "r \<in> set (tl q')"
        and st: "started (emit (p_ref p) Start s) (p_ref r)"
      show "started s (p_ref r)"
      proof (rule ccontr)
        assume "\<not> started s (p_ref r)"
        with st have eq: "p_ref r = p_ref p" by (simp add: started_emit)
        have rq: "r \<in> set q'" using r by (rule in_set_tl)
        note e = queue_inv_elem [OF qi' rq]
        have "map_of (listeners s) (p_ref p) = Some r" using e eq by simp
        then have rp: "r = p" using pe(1) by simp
        have "n' = n" "b' = b" using e pe(2,3) rp by simp_all
        then have "q' = p # ps" using q g by simp
        then have "p \<in> set ps" using r rp by simp
        then show False using queue_inv_distinct [OF qi] by auto
      qed
    qed simp_all
  }
  {
    fix h' sg' assume "Signal h' sg' \<in> set (trace (emit (p_ref p) Start s))"
    then show "h' < next_ref (emit (p_ref p) Start s)" using inv_traceD [OF i] pe(4) by auto
  }
  {
    fix h' assume "h' \<in> fst ` set (listeners (emit (p_ref p) Start s))"
    then show "h' < next_ref (emit (p_ref p) Start s)" using inv_listenersD [OF i] by simp
  }
  show "distinct (map p_ref (finished (emit (p_ref p) Start s)))"
    using inv_finishedD [OF i] by simp
qed

text \<open>Replacing, creating or deleting one queue.\<close>

lemma inv_set_queue:
  assumes i: "registry_inv s" and qi: "queue_inv s n b q'"
  shows "registry_inv (set_queue n b q' s)"
proof (rule registry_invI)
  fix n' b' q assume g: "get_queue n' b' (set_queue n b q' s) = Some q"
  have "queue_inv s n' b' q"
  proof (cases "map_of (networks s) n \<noteq> None \<and> n' = n \<and> b' = b")
    case True
    with g have "q = q'" by (simp add: get_queue_set_queue')
    with True qi show ?thesis by simp
  next
    case False
    with g have "get_queue n' b' s = Some q" by (auto simp: get_queue_set_queue' split: if_splits)
    with i show ?thesis by (rule inv_queueD)
  qed
  then show "queue_inv (set_queue n b q' s) n' b' q"
    by (rule queue_inv_later) (simp_all add: started_def)
next
  fix h' sg' assume "Signal h' sg' \<in> set (trace (set_queue n b q' s))"
  then show "h' < next_ref (set_queue n b q' s)" using inv_traceD [OF i] by simp
next
  fix h' assume "h' \<in> fst ` set (listeners (set_queue n b q' s))"
  then show "h' < next_ref (set_queue n b q' s)" using inv_listenersD [OF i] by simp
next
  show "distinct (map p_ref (finished (set_queue n b q' s)))" using inv_finishedD [OF i] by simp
qed

lemma inv_delete_queue:
  assumes i: "registry_inv s"
  shows "registry_inv (delete_queue n b s)"
proof (rule registry_invI)
  fix n' b' q assume g: "get_queue n' b' (delete_queue n b s) = Some q"
  then have "get_queue n' b' s = Some q" by (simp add: get_queue_delete_queue split: if_splits)
  with i have "queue_inv s n' b' q" by (rule inv_queueD)
  then show "queue_inv (delete_queue n b s) n' b' q"
    by (rule queue_inv_later) (simp_all add: started_def)
next
  fix h' sg' assume "Signal h' sg' \<in> set (trace (delete_queue n b s))"
  then show "h' < next_ref (delete_queue n b s)" using inv_traceD [OF i] by simp
next
  fix h' assume "h' \<in> fst ` set (listeners (delete_queue n b s))"
  then show "h' < next_ref (delete_queue n b s)" using inv_listenersD [OF i] by simp
next
  show "distinct (map p_ref (finished (delete_queue n b s)))" using inv_finishedD [OF i] by simp
qed

lemma distinct_tl_map: "distinct (map f q) \<Longrightarrow> distinct (map f (tl q))"
  by (cases q) auto

lemma set_tl_tl: "set (tl (tl q)) \<subseteq> set (tl q)"
  by (auto dest: in_set_tl)

lemma set_tl_filter: "set (tl (filter P q)) \<subseteq> set (tl q)"
  by (cases q) (auto dest: in_set_tl)

lemma inv_set_queue_tl:
  assumes i: "registry_inv s" and g: "get_queue n b s = Some q"
  shows "registry_inv (set_queue n b (tl q) s)"
proof -
  have qi: "queue_inv s n b q" using i g by (rule inv_queueD)
  have "queue_inv s n b (tl q)"
    using queue_inv_distinct [OF qi]
    by (intro queue_inv_sub [OF qi] set_tl_tl) (auto dest: in_set_tl simp: distinct_tl_map)
  with i show ?thesis by (rule inv_set_queue)
qed

lemma inv_set_queue_filter:
  assumes i: "registry_inv s" and g: "get_queue n b s = Some q"
  shows "registry_inv (set_queue n b (filter P q) s)"
proof -
  have qi: "queue_inv s n b q" using i g by (rule inv_queueD)
  have "queue_inv s n b (filter P q)"
    using queue_inv_distinct [OF qi]
    by (intro queue_inv_sub [OF qi] set_tl_filter) (auto simp: distinct_map_filter)
  with i show ?thesis by (rule inv_set_queue)
qed

lemma get_queue_record_updates [simp]:
  "get_queue n b (s\<lparr>next_ref := x\<rparr>) = get_queue n b s"
  "get_queue n b (s\<lparr>listeners := l\<rparr>) = get_queue n b s"
  "get_queue n b (s\<lparr>finished := f\<rparr>) = get_queue n b s"
  "get_queue n b (s\<lparr>trace := t\<rparr>) = get_queue n b s"
  "get_queue n b (s\<lparr>removals := rm\<rparr>) = get_queue n b s"
  "get_queue n b (s\<lparr>lookups := lk\<rparr>) = get_queue n b s"
  by (simp_all add: get_queue_def)

lemma distinct_set_add:
  "distinct (map p_ref fin) \<Longrightarrow> distinct (map p_ref (set_add r fin))"
proof (cases "p_ref r \<in> set (map p_ref fin)")
  case True
  assume d: "distinct (map p_ref fin)"
  have m: "map p_ref (map (\<lambda>x. if p_ref x = p_ref r then r else x) fin) = map p_ref fin"
    by (induction fin) auto
  have "set_add r fin = map (\<lambda>x. if p_ref x = p_ref r then r else x) fin"
    using True by (simp add: set_add_def)
  then show ?thesis using d m by (simp del: map_map)
next
  case False
  assume d: "distinct (map p_ref fin)"
  have "set_add r fin = fin @ [r]" using False by (simp add: set_add_def)
  then show ?thesis using d False by simp
qed

lemma inv_finished_add:
  assumes i: "registry_inv s"
  shows "registry_inv (s\<lparr>finished := set_add r (finished s)\<rparr>)"
proof (rule registry_invI)
  fix n b q assume "get_queue n b (s\<lparr>finished := set_add r (finished s)\<rparr>) = Some q"
  then have "queue_inv s n b q" using i by (simp add: inv_queueD)
  then show "queue_inv (s\<lparr>finished := set_add r (finished s)\<rparr>) n b q"
    by (rule queue_inv_later) (simp_all add: started_def)
next
  fix h sg assume "Signal h sg \<in> set (trace (s\<lparr>finished := set_add r (finished s)\<rparr>))"
  then show "h < next_ref (s\<lparr>finished := set_add r (finished s)\<rparr>)"
    using inv_traceD [OF i] by simp
next
  fix h assume "h \<in> fst ` set (listeners (s\<lparr>finished := set_add r (finished s)\<rparr>))"
  then show "h < next_ref (s\<lparr>finished := set_add r (finished s)\<rparr>)"
    using inv_listenersD [OF i] by simp
next
  show "distinct (map p_ref (finished (s\<lparr>finished := set_add r (finished s)\<rparr>)))"
    using inv_finishedD [OF i] by (simp add: distinct_set_add)
qed

lemma inv_advance:
  assumes i: "registry_inv s" and g: "get_queue n b s = Some xdcc"
    and a: "advance n b xdcc s = Some s'"
  shows "registry_inv s'"
proof (cases xdcc)
  case Nil
  with a have "s' = delete_queue n b s" by (simp add: advance_def)
  then show ?thesis using i by (simp add: inv_delete_queue)
next
  case (Cons p ps)
  have qi: "queue_inv s n b (p # ps)" using i g Cons by (simp add: inv_queueD)
  have "p_xdcc p = Some (p_ref p)" using queue_inv_elem [OF qi, of p] by simp
  with a Cons have "s' = emit (p_ref p) Start s" by (simp add: advance_def)
  then show ?thesis using inv_emit_start_head [OF i] g Cons by simp
qed

lemma get_queue_networkD: "get_queue n b s = Some q \<Longrightarrow> map_of (networks s) n \<noteq> None"
  by (auto simp: get_queue_def split: option.splits)

lemma get_queue_set_queue_same:
  "map_of (networks s) n \<noteq> None \<Longrightarrow> get_queue n b (set_queue n b q s) = Some q"
  by (auto simp: get_queue_set_queue')

lemma get_queue_intro:
  "map_of (networks s) n = Some nw \<Longrightarrow> map_of (nw_xdcc nw) b = r \<Longrightarrow> get_queue n b s = r"
  by (simp add: get_queue_def)

lemma inv_xdccProgress:
  assumes i: "registry_inv s"
  shows "registry_inv (snd (xdccProgress dbpack status s))"
proof (cases "map_of (networks s) (p_network dbpack)")
  case None
  then show ?thesis using i by (simp add: xdccProgress_def)
next
  case (Some nw)
  show ?thesis
  proof (cases "status = ''canceled''")
    case False
    then show ?thesis using i Some by (simp add: xdccProgress_def)
  next
    case True
    show ?thesis
    proof (cases "map_of (nw_xdcc nw) (p_bot dbpack)")
      case None
      then show ?thesis using i Some True by (simp add: xdccProgress_def)
    next
      case (Some q)
      let ?n = "p_network dbpack" and ?b = "p_bot dbpack"
      let ?s1 = "set_queue ?n ?b (tl q) s"
      have g: "get_queue ?n ?b s = Some q"
        using \<open>map_of (networks s) ?n = Some nw\<close> Some by (rule get_queue_intro)
      have i1: "registry_inv ?s1" using i g by (rule inv_set_queue_tl)
      have g1: "get_queue ?n ?b ?s1 = Some (tl q)"
        using get_queue_networkD [OF g] by (rule get_queue_set_queue_same)
      show ?thesis
      proof (cases "advance ?n ?b (tl q) ?s1")
        case None
        then show ?thesis
          using i1 \<open>map_of (networks s) ?n = Some nw\<close> Some True
          by (simp add: xdccProgress_def)
      next
        case (Some s2)
        have "registry_inv s2" using i1 g1 Some by (rule inv_advance)
        then show ?thesis
          using \<open>map_of (networks s) ?n = Some nw\<close> \<open>map_of (nw_xdcc nw) ?b = Some q\<close> True Some
          by (simp add: xdccProgress_def)
      qed
    qed
  qed
qed


lemma inv_xdccMessage: "registry_inv s \<Longrightarrow> registry_inv (snd (xdccMessage dbpack s))"
  by (simp add: xdccMessage_def)

lemma inv_xdccConnect:
  assumes i: "registry_inv s"
  shows "registry_inv (snd (xdccConnect chk dbpack fileName s))"
proof (cases "get_queue (p_network dbpack) (p_bot dbpack) s")
  case None
  then show ?thesis using i
    by (auto simp: xdccConnect_def get_queue_def split: option.splits)
next
  case (Some q)
  then obtain nw where nw: "map_of (networks s) (p_network dbpack) = Some nw"
      "map_of (nw_xdcc nw) (p_bot dbpack) = Some q"
    by (auto simp: get_queue_def split: option.splits)
  show ?thesis
  proof (cases q)
    case Nil
    then show ?thesis using i nw by (simp add: xdccConnect_def)
  next
    case (Cons p ps)
    have qi: "queue_inv s (p_network dbpack) (p_bot dbpack) (p # ps)"
      using i Some Cons by (simp add: inv_queueD)
    have p: "p_xdcc p = Some (p_ref p)" "p_ref p < next_ref s"
      using queue_inv_elem [OF qi, of p] by simp_all
    have "registry_inv (emit (p_ref p) Cancel s)" using i p(2) by (rule inv_emit_other) simp
    then show ?thesis using i nw Cons p by (simp add: xdccConnect_def)
  qed
qed

lemma inv_xdccComplete:
  assumes i: "registry_inv s"
  shows "registry_inv (snd (xdccComplete eng dbpack s))"
proof (cases "get_queue (p_network dbpack) (p_bot dbpack) s")
  case None
  then show ?thesis using i
    by (auto simp: xdccComplete_def get_queue_def split: option.splits)
next
  case (Some q)
  let ?n = "p_network dbpack" and ?b = "p_bot dbpack"
  from Some obtain nw where nw: "map_of (networks s) ?n = Some nw" "map_of (nw_xdcc nw) ?b = Some q"
    by (auto simp: get_queue_def split: option.splits)
  show ?thesis
  proof (cases q)
    case Nil
    then show ?thesis using i nw by (simp add: xdccComplete_def)
  next
    case (Cons request xdcc)
    let ?s1 = "set_queue ?n ?b xdcc s"
    have i1: "registry_inv ?s1" using inv_set_queue_tl [OF i Some] Cons by simp
    have g1: "get_queue ?n ?b ?s1 = Some xdcc"
      using get_queue_networkD [OF Some] by (rule get_queue_set_queue_same)
    have qi: "queue_inv s ?n ?b (request # xdcc)" using i Some Cons by (simp add: inv_queueD)
    have r: "p_xdcc request = Some (p_ref request)"
      using queue_inv_elem [OF qi, of request] by simp
    let ?r1 = "request\<lparr>p_notices := Some (ax_notices (eng (p_ref request))), p_xdcc := None\<rparr>"
    let ?s2 = "?s1\<lparr>finished := set_add ?r1 (finished ?s1)\<rparr>"
    have i2: "registry_inv ?s2" using i1 by (rule inv_finished_add)
    have g2: "get_queue ?n ?b ?s2 = Some xdcc" using g1 by simp
    show ?thesis
    proof (cases "advance ?n ?b xdcc ?s2")
      case None
      then show ?thesis using i2 nw Cons r by (simp add: xdccComplete_def)
    next
      case (Some s3)
      have "registry_inv s3" using i2 g2 Some by (rule inv_advance)
      then show ?thesis using nw Cons r Some by (simp add: xdccComplete_def)
    qed
  qed
qed

lemma inv_xdccError:
  assumes i: "registry_inv s"
  shows "registry_inv (snd (xdccError dbpack s))"
proof (cases "get_queue (p_network dbpack) (p_bot dbpack) s")
  case None
  then show ?thesis using i
    by (auto simp: xdccError_def get_queue_def split: option.splits)
next
  case (Some q)
  let ?n = "p_network dbpack" and ?b = "p_bot dbpack"
  from Some obtain nw where nw: "map_of (networks s) ?n = Some nw" "map_of (nw_xdcc nw) ?b = Some q"
    by (auto simp: get_queue_def split: option.splits)
  show ?thesis
  proof (cases q)
    case Nil
    then show ?thesis using i nw by (simp add: xdccError_def)
  next
    case (Cons request xdcc)
    let ?s1 = "set_queue ?n ?b xdcc s"
    have i1: "registry_inv ?s1" using inv_set_queue_tl [OF i Some] Cons by simp
    have g1: "get_queue ?n ?b ?s1 = Some xdcc"
      using get_queue_networkD [OF Some] by (rule get_queue_set_queue_same)
    have qi: "queue_inv s ?n ?b (request # xdcc)" using i Some Cons by (simp add: inv_queueD)
    have r: "p_xdcc request = Some (p_ref request)" "p_ref request < next_ref ?s1"
      using queue_inv_elem [OF qi, of request] by simp_all
    let ?s3 = "addDownload (p_id request) False (emit (p_ref request) Kill ?s1)"
    have "registry_inv (emit (p_ref request) Kill ?s1)" using i1 r(2) by (rule inv_emit_other) simp
    then have i3: "registry_inv ?s3" by simp
    have g3: "get_queue ?n ?b ?s3 = Some xdcc" using g1 by simp
    show ?thesis
    proof (cases "advance ?n ?b xdcc ?s3")
      case None
      then show ?thesis using i3 nw Cons r by (simp add: xdccError_def)
    next
      case (Some s4)
      have "registry_inv s4" using i3 g3 Some by (rule inv_advance)
      then show ?thesis using nw Cons r Some by (simp add: xdccError_def)
    qed
  qed
qed

lemma findIndex_nth:
  "findIndex P xs \<noteq> - 1 \<Longrightarrow> nat (findIndex P xs) < length xs \<and> P (xs ! nat (findIndex P xs))"
proof (induction xs)
  case Nil
  then show ?case by simp
next
  case (Cons x xs)
  show ?case
  proof (cases "P x")
    case True
    then show ?thesis by simp
  next
    case False
    with Cons.prems have ne: "findIndex P xs \<noteq> - 1" by (auto simp: Let_def split: if_splits)
    with findIndex_ge [of P xs] have ge: "0 \<le> findIndex P xs" by simp
    from False ne have "findIndex P (x # xs) = findIndex P xs + 1" by (simp add: Let_def)
    moreover have "nat (findIndex P xs + 1) = Suc (nat (findIndex P xs))" using ge by simp
    ultimately show ?thesis using Cons.IH [OF ne] by simp
  qed
qed

lemma cancelDownload_found:
  assumes "map_of (networks s) network = Some nw" and "map_of (nw_xdcc nw) b = Some q"
    and "q \<noteq> []" and "findIndex (\<lambda>p. p_id p = ident) q \<noteq> - 1"
    and "p_xdcc (q ! nat (findIndex (\<lambda>p. p_id p = ident) q)) = Some h"
  shows "cancelDownload eng network b ident s =
     (Callback JNull,
      set_queue network b (filter (\<lambda>p. \<not> p_id p = ident) q)
        (if ax_status (eng h) \<noteq> ''created'' then emit h Cancel s else emit h Kill s))"
proof (cases q)
  case Nil
  with assms show ?thesis by simp
next
  case (Cons x xs)
  have "cancelDownload eng network b ident s =
     (let xdccs = q; i = findIndex (\<lambda>p. p_id p = ident) xdccs
      in if i = - 1 then (Callback (JStr ''Pack not found''), s)
         else (case p_xdcc (xdccs ! nat i) of
                 None \<Rightarrow> (Throw ''TypeError'', s)
               | Some h \<Rightarrow>
                   (let s1 = (if ax_status (eng h) \<noteq> ''created'' then emit h Cancel s
                              else emit h Kill s);
                        s2 = set_queue network b (filter (\<lambda>p. \<not> p_id p = ident) xdccs) s1
                    in (Callback JNull, s2))))"
    unfolding cancelDownload_def using assms(1,2) Cons by (simp del: findIndex.simps filter.simps)
  then show ?thesis using assms(4,5) by (simp add: Let_def del: findIndex.simps filter.simps)
qed

lemma inv_cancelDownload:
  assumes i: "registry_inv s"
  shows "registry_inv (snd (cancelDownload eng network b ident s))"
proof (cases "get_queue network b s")
  case None
  then show ?thesis using i
    by (auto simp: cancelDownload_def get_queue_def split: option.splits)
next
  case (Some q)
  from Some obtain nw where nw: "map_of (networks s) network = Some nw" "map_of (nw_xdcc nw) b = Some q"
    by (auto simp: get_queue_def split: option.splits)
  show ?thesis
  proof (cases q)
    case Nil
    then show ?thesis using i nw by (simp add: cancelDownload_def)
  next
    case (Cons x xs)
    let ?i = "findIndex (\<lambda>p. p_id p = ident) q"
    show ?thesis
    proof (cases "?i = - 1")
      case True
      then show ?thesis using i nw Cons by (simp add: cancelDownload_def)
    next
      case False
      let ?r = "q ! nat ?i"
      have rq: "?r \<in> set q" using findIndex_nth [OF False] by simp
      have qi: "queue_inv s network b q" using i Some by (rule inv_queueD)
      have r: "p_xdcc ?r = Some (p_ref ?r)" "p_ref ?r < next_ref s"
        using queue_inv_elem [OF qi rq] by simp_all
      let ?s1 = "if ax_status (eng (p_ref ?r)) \<noteq> ''created'' then emit (p_ref ?r) Cancel s
                 else emit (p_ref ?r) Kill s"
      have i1: "registry_inv ?s1" using i r(2) by (simp add: inv_emit_other)
      have g1: "get_queue network b ?s1 = Some q" using Some by simp
      have "registry_inv (set_queue network b (filter (\<lambda>p. \<not> p_id p = ident) q) ?s1)"
        using i1 g1 by (rule inv_set_queue_filter)
      then show ?thesis using cancelDownload_found [OF nw _ False r(1), of eng] Cons by simp
    qed
  qed
qed


text \<open>A state whose queues are queues of an earlier state, or empty.\<close>

lemma inv_shrink:
  assumes i: "registry_inv s"
    and q: "\<And>n b q. get_queue n b s' = Some q \<Longrightarrow> q = [] \<or> get_queue n b s = Some q"
    and t: "\<And>h sg. Signal h sg \<in> set (trace s') \<Longrightarrow> Signal h sg \<in> set (trace s)"
    and e: "next_ref s' = next_ref s" "listeners s' = listeners s" "finished s' = finished s"
  shows "registry_inv s'"
proof (rule registry_invI)
  fix n b q' assume g: "get_queue n b s' = Some q'"
  show "queue_inv s' n b q'"
  proof (cases "q' = []")
    case True
    then show ?thesis by simp
  next
    case False
    with q [OF g] have "get_queue n b s = Some q'" by simp
    with i have "queue_inv s n b q'" by (rule inv_queueD)
    then show ?thesis
      by (rule queue_inv_later) (auto simp: e started_def dest: t)
  qed
next
  fix h sg assume "Signal h sg \<in> set (trace s')"
  then show "h < next_ref s'" using inv_traceD [OF i] t e by auto
next
  fix h assume "h \<in> fst ` set (listeners s')"
  then show "h < next_ref s'" using inv_listenersD [OF i] e by simp
next
  show "distinct (map p_ref (finished s'))" using inv_finishedD [OF i] e by simp
qed

lemma get_queue_update_network:
  "get_queue n b (s\<lparr>networks := AList.update name nw (networks s)\<rparr>) =
     (if n = name then map_of (nw_xdcc nw) b else get_queue n b s)"
  by (simp add: get_queue_def update_conv')

lemma get_queue_delete_network:
  "get_queue n b (s\<lparr>networks := AList.delete name (networks s)\<rparr>) =
     (if n = name then None else get_queue n b s)"
  by (simp add: get_queue_def delete_conv')

lemma inv_addNetwork:
  assumes i: "registry_inv s"
  shows "registry_inv (snd (addNetwork gen network hostname opts s))"
proof (cases "\<exists>s'. addNetwork gen network hostname opts s = (Return, s')")
  case False
  then have "snd (addNetwork gen network hostname opts s) = s"
    by (auto simp: addNetwork_def Let_def split: jsval.splits option.splits sum.splits if_splits)
  then show ?thesis using i by simp
next
  case True
  then obtain name irc c where
    s': "snd (addNetwork gen network hostname opts s) =
           s\<lparr>networks := AList.update name \<lparr>nw_irc = irc, nw_xdcc = []\<rparr> (networks s),
             nwc := c, nwc_saved := c\<rparr>"
    by (auto simp: addNetwork_def Let_def split: jsval.splits option.splits sum.splits if_splits)
  show ?thesis unfolding s'
    by (rule inv_shrink [OF i]) (auto simp: get_queue_def update_conv' split: if_splits)
qed

lemma inv_removeNetwork:
  assumes i: "registry_inv s"
  shows "registry_inv (snd (removeNetwork network flush s))"
  by (rule inv_shrink [OF i])
     (auto simp: removeNetwork_def get_queue_def split: option.splits if_splits)

lemma inv_removeNetwork_done:
  assumes i: "registry_inv s"
  shows "registry_inv (removeNetwork_done network err s)"
  by (rule inv_shrink [OF i])
     (auto simp: removeNetwork_done_def Let_def get_queue_def delete_conv' split: if_splits)

lemma enqueueAll_fields [simp]:
  "networks (enqueueAll key b es s) = networks s"
  "trace (enqueueAll key b es s) = trace s"
  "next_ref (enqueueAll key b es s) = next_ref s"
  "listeners (enqueueAll key b es s) = listeners s"
  "finished (enqueueAll key b es s) = finished s"
  by (induction es arbitrary: s) simp_all

lemma bootBots_fields [simp]:
  "networks (bootBots key bots s) = networks s"
  "trace (bootBots key bots s) = trace s"
  "next_ref (bootBots key bots s) = next_ref s"
  "listeners (bootBots key bots s) = listeners s"
  "finished (bootBots key bots s) = finished s"
  by (induction key bots s rule: bootBots.induct) simp_all

lemma inv_boot:
  "registry_inv s \<Longrightarrow> registry_inv (snd (boot gen cf jNetwork jDownloads s))"
proof (induction gen cf jNetwork jDownloads s rule: boot.induct)
  case (1 generated chanFromJSON jDownloads s)
  then show ?case by simp
next
  case (2 generated chanFromJSON key nw rest jDownloads s)
  show ?case
  proof (cases "nc_opts nw")
    case None
    then show ?thesis using "2.prems" by simp
  next
    case (Some ob)
    let ?js = "\<lparr>j_hostname = nc_hostname nw, j_nick = None,
                 j_opts = Some (ob\<lparr>o_onPackinfo := PackCallback\<rparr>),
                 j_errors = [], j_motd = [], j_notices = [], j_status = []\<rparr>"
    show ?thesis
    proof (cases "fromJSON generated chanFromJSON ?js")
      case (Inl e)
      then show ?thesis using "2.prems" Some by simp
    next
      case (Inr irc)
      let ?s1 = "s\<lparr>networks := AList.update key \<lparr>nw_irc = irc, nw_xdcc = []\<rparr> (networks s)\<rparr>"
      let ?s2 = "case map_of jDownloads key of None \<Rightarrow> ?s1 | Some bots \<Rightarrow> bootBots key bots ?s1"
      have "registry_inv ?s2"
        by (rule inv_shrink [OF "2.prems"])
           (auto simp: get_queue_def update_conv' split: if_splits option.splits)
      then have "registry_inv (snd (boot generated chanFromJSON rest jDownloads ?s2))"
        using "2.IH" [OF Some Inr refl refl] by simp
      then show ?thesis using Some Inr by (simp add: Let_def)
    qed
  qed
qed



lemma map_of_append_fresh:
  "k \<notin> fst ` set l \<Longrightarrow> map_of (l @ [(k, v)]) k' = (if k' = k then Some v else map_of l k')"
  by (induction l) auto

lemma inv_enqueue:
  assumes i: "registry_inv s"
    and nw: "map_of (networks s) n \<noteq> None"
    and q: "q = (case get_queue n b s of None \<Rightarrow> [] | Some q \<Rightarrow> q)"
    and fresh_id: "\<forall>p \<in> set q. p_id p \<noteq> ident"
    and pk: "pack = \<lparr>p_ref = next_ref s, p_id = ident, p_network = n, p_bot = b, p_name = nm,
                      p_xdcc = Some (next_ref s), p_notices = None\<rparr>"
    and s': "get_queue n b s' = Some (q @ [pack])"
            "\<And>n' b'. (n', b') \<noteq> (n, b) \<Longrightarrow> get_queue n' b' s' = get_queue n' b' s"
            "trace s' = trace s @ (if q = [] then [Signal (next_ref s) Start] else [])"
            "next_ref s' = Suc (next_ref s)"
            "listeners s' = listeners s @ [(next_ref s, pack)]"
            "finished s' = finished s"
  shows "registry_inv s'"
proof (rule registry_invI)
  have hl: "next_ref s \<notin> fst ` set (listeners s)" using inv_listenersD [OF i] by blast
  have ht: "\<not> started s (next_ref s)" using inv_traceD [OF i] by (auto simp: started_def)
  have qi: "queue_inv s n b q"
    using i q by (auto split: option.splits dest: inv_queueD)
  have old: "queue_inv s' n' b' q'" if qi': "queue_inv s n' b' q'" for n' b' q'
  proof (rule queue_inv_later [OF qi'])
    show "next_ref s \<le> next_ref s'" using s'(4) by simp
  next
    fix r assume "r \<in> set q'"
    from queue_inv_elem [OF qi' this] have "p_ref r \<noteq> next_ref s" by simp
    then show "map_of (listeners s') (p_ref r) = map_of (listeners s) (p_ref r)"
      using map_of_append_fresh [OF hl] s'(5) by simp
  next
    fix r assume r: "r \<in> set (tl q')" and st: "started s' (p_ref r)"
    from queue_inv_elem [OF qi' in_set_tl [OF r]] have "p_ref r \<noteq> next_ref s" by simp
    with st show "started s (p_ref r)" using s'(3) by (auto simp: started_def split: if_splits)
  qed
  {
    fix n' b' q' assume g: "get_queue n' b' s' = Some q'"
    show "queue_inv s' n' b' q'"
    proof (cases "(n', b') = (n, b)")
      case False
      with g s'(2) have "get_queue n' b' s = Some q'" by simp
      with i have "queue_inv s n' b' q'" by (rule inv_queueD)
      then show ?thesis by (rule old)
    next
      case True
      with g s'(1) have q': "q' = q @ [pack]" "n' = n" "b' = b" by simp_all
      have qo: "queue_inv s' n b q" using qi by (rule old)
      have refs: "\<forall>r \<in> set q. p_ref r \<noteq> next_ref s"
        using queue_inv_elem [OF qi] by fastforce
      show ?thesis unfolding q'
      proof (rule queue_invI)
        fix r assume "r \<in> set (q @ [pack])"
        then consider "r \<in> set q" | "r = pack" by auto
        then have e: "p_xdcc r = Some (p_ref r) \<and> p_ref r < next_ref s' \<and> p_network r = n \<and>
            p_bot r = b \<and> map_of (listeners s') (p_ref r) = Some r"
        proof cases
          case 1
          then show ?thesis using queue_inv_elem [OF qo 1] by simp
        next
          case 2
          have "map_of (listeners s') (p_ref r) = Some r"
            using 2 pk s'(5) map_of_append_fresh [OF hl] by simp
          then show ?thesis using 2 pk s'(4) by simp
        qed
        show "p_xdcc r = Some (p_ref r)" "p_ref r < next_ref s'" "p_network r = n"
          "p_bot r = b" "map_of (listeners s') (p_ref r) = Some r" using e by simp_all
      next
        show "distinct (map p_ref (q @ [pack]))"
          using queue_inv_distinct [OF qi] refs pk by auto
        show "distinct (map p_id (q @ [pack]))"
          using queue_inv_distinct [OF qi] fresh_id pk by auto
      next
        fix r assume r: "r \<in> set (tl (q @ [pack]))"
        show "\<not> started s' (p_ref r)"
        proof (cases q)
          case Nil
          with r show ?thesis by simp
        next
          case (Cons x xs)
          then have tr: "trace s' = trace s" using s'(3) by simp
          from r Cons consider "r \<in> set (tl q)" | "r = pack" by auto
          then show ?thesis
          proof cases
            case 1
            then show ?thesis using queue_inv_tail [OF qi] tr by (simp add: started_def)
          next
            case 2
            then show ?thesis using ht pk tr by (simp add: started_def)
          qed
        qed
      qed
    qed
  }
  {
    fix h sg assume "Signal h sg \<in> set (trace s')"
    then show "h < next_ref s'"
      using inv_traceD [OF i] s'(3,4) by (auto simp: less_Suc_eq split: if_splits)
  }
  {
    fix h assume "h \<in> fst ` set (listeners s')"
    then show "h < next_ref s'" using inv_listenersD [OF i] s'(4,5) by (auto simp: less_Suc_eq)
  }
  show "distinct (map p_ref (finished s'))" using inv_finishedD [OF i] s'(6) by simp
qed


lemma addDownload_found_enqueue:
  assumes "map_of (networks s) (d_network d) = Some nw"
    and "xdcc = (case map_of (nw_xdcc nw) (d_bot d) of None \<Rightarrow> [] | Some q \<Rightarrow> q)"
    and "findIndex (\<lambda>p. p_id p = d_id d) xdcc = - 1"
  shows "addDownload_found dontPersist (DbPack d) s =
     (Callback JNull,
      if \<not> dontPersist
      then persist_push (d_network d) (d_bot d) \<lparr>pe_pack = d_id d, pe_name = d_name d\<rparr>
             (enqueued d xdcc s)
      else enqueued d xdcc s)"
  using assms by (simp add: addDownload_found_def enqueued_def Let_def)

lemma addDownload_found_present:
  assumes "map_of (networks s) (d_network d) = Some nw"
    and "xdcc = (case map_of (nw_xdcc nw) (d_bot d) of None \<Rightarrow> [] | Some q \<Rightarrow> q)"
    and "findIndex (\<lambda>p. p_id p = d_id d) xdcc \<noteq> - 1"
  shows "addDownload_found dontPersist (DbPack d) s =
     (Callback (JBool True), set_queue (d_network d) (d_bot d) xdcc s)"
  using assms by (simp add: addDownload_found_def Let_def)

lemma enqueued_fields:
  assumes "map_of (networks s) (d_network d) \<noteq> None"
  shows "get_queue (d_network d) (d_bot d) (enqueued d xdcc s) =
           Some (xdcc @ [\<lparr>p_ref = next_ref s, p_id = d_id d, p_network = d_network d,
                          p_bot = d_bot d, p_name = d_name d, p_xdcc = Some (next_ref s),
                          p_notices = None\<rparr>])"
    and "(n', b') \<noteq> (d_network d, d_bot d) \<Longrightarrow>
           get_queue n' b' (enqueued d xdcc s) = get_queue n' b' s"
    and "trace (enqueued d xdcc s) =
           trace s @ (if xdcc = [] then [Signal (next_ref s) Start] else [])"
    and "next_ref (enqueued d xdcc s) = Suc (next_ref s)"
    and "listeners (enqueued d xdcc s) =
           listeners s @ [(next_ref s, \<lparr>p_ref = next_ref s, p_id = d_id d,
              p_network = d_network d, p_bot = d_bot d, p_name = d_name d,
              p_xdcc = Some (next_ref s), p_notices = None\<rparr>)]"
    and "finished (enqueued d xdcc s) = finished s"
    and "dl (enqueued d xdcc s) = dl s"
    and "lookups (enqueued d xdcc s) = lookups s"
  using assms by (auto simp: enqueued_def Let_def get_queue_set_queue')

lemma inv_addDownload_found:
  assumes i: "registry_inv s"
  shows "registry_inv (snd (addDownload_found dontPersist reply s))"
proof (cases reply)
  case DbError
  then show ?thesis using i by (simp add: addDownload_found_def)
next
  case DbNull
  then show ?thesis using i by (simp add: addDownload_found_def)
next
  case (DbPack d)
  show ?thesis
  proof (cases "map_of (networks s) (d_network d)")
    case None
    then show ?thesis using i DbPack by (simp add: addDownload_found_def)
  next
    case (Some nw)
    define xdcc where "xdcc = (case map_of (nw_xdcc nw) (d_bot d) of None \<Rightarrow> [] | Some q \<Rightarrow> q)"
    have gq: "xdcc = (case get_queue (d_network d) (d_bot d) s of None \<Rightarrow> [] | Some q \<Rightarrow> q)"
      using Some by (simp add: xdcc_def get_queue_def)
    have ne: "map_of (networks s) (d_network d) \<noteq> None" using Some by simp
    show ?thesis
    proof (cases "findIndex (\<lambda>p. p_id p = d_id d) xdcc = - 1")
      case False
      have "queue_inv s (d_network d) (d_bot d) xdcc"
        using i gq by (auto split: option.splits dest: inv_queueD)
      with i have "registry_inv (set_queue (d_network d) (d_bot d) xdcc s)"
        by (rule inv_set_queue)
      then show ?thesis
        using addDownload_found_present [OF Some xdcc_def False] DbPack by simp
    next
      case True
      then have fresh: "\<forall>p \<in> set xdcc. p_id p \<noteq> d_id d" by (simp add: findIndex_neg)
      have "registry_inv (enqueued d xdcc s)"
        by (rule inv_enqueue [OF i ne gq fresh refl])
           (simp_all add: enqueued_fields [OF ne])
      then show ?thesis
        using addDownload_found_enqueue [OF Some xdcc_def True] DbPack by simp
    qed
  qed
qed

lemma inv_step: "registry_inv s \<Longrightarrow> registry_inv (step e a s)"
proof (cases a)
  case (DbReply i reply)
  assume "registry_inv s"
  then show ?thesis using DbReply by (simp add: inv_addDownload_found)
qed (simp_all add: inv_addNetwork inv_removeNetwork inv_removeNetwork_done inv_cancelDownload
       inv_boot inv_xdccConnect inv_xdccProgress inv_xdccMessage inv_xdccComplete inv_xdccError
       split: option.splits)

lemma inv_run: "registry_inv s \<Longrightarrow> registry_inv (run acts s)"
  by (induction acts arbitrary: s) (auto simp: inv_step)

lemma inv_init: "registry_inv (init_state d n)"
  by (simp add: registry_inv_def init_state_def get_queue_def)

lemma reachable_inv: "reachable s \<Longrightarrow> registry_inv s"
  by (auto simp: reachable_def inv_run inv_init)

subsection \<open>One active request per queue\<close>

lemma active_from_started: "active_from a h tr \<Longrightarrow> a \<or> Signal h Start \<in> set tr"
proof (induction tr arbitrary: a)
  case Nil
  then show ?case by simp
next
  case (Cons e es)
  from Cons.IH [OF Cons.prems [simplified]] show ?case by (auto split: if_splits)
qed

lemma active_started: "active tr h \<Longrightarrow> Signal h Start \<in> set tr"
  unfolding active_def by (drule active_from_started) simp

lemma is_active_started:
  "is_active s r \<Longrightarrow> p_xdcc r = Some (p_ref r) \<Longrightarrow> started s (p_ref r)"
  by (simp add: is_active_def started_def active_started)

text \<open>
  Claim C1. In every state the event loop can reach, every transfer queue holds at most one
  active request, and no request behind the head of a queue is active: an active request of
  a queue is its head.
\<close>

theorem one_active_per_queue:
  assumes r: "reachable s" and g: "get_queue n b s = Some q"
  shows "one_active_at_head s q"
proof -
  have qi: "queue_inv s n b q" using reachable_inv [OF r] g by (rule inv_queueD)
  have tail: "\<not> is_active s x" if x: "x \<in> set (tl q)" for x
  proof
    assume a: "is_active s x"
    have "p_xdcc x = Some (p_ref x)" using queue_inv_elem [OF qi in_set_tl [OF x]] by simp
    with a have "started s (p_ref x)" by (rule is_active_started)
    with queue_inv_tail [OF qi x] show False by simp
  qed
  then have f: "filter (is_active s) (tl q) = []" by (simp add: filter_empty_conv)
  have "length (filter (is_active s) q) \<le> 1"
  proof (cases q)
    case Nil
    then show ?thesis by simp
  next
    case (Cons x xs)
    with f show ?thesis by simp
  qed
  moreover have "list_all (\<lambda>r. \<not> is_active s r) (tl q)" using tail by (simp add: list_all_iff)
  ultimately show ?thesis by (simp add: one_active_at_head_def)
qed

lemma ex_state_reachable: "reachable ex_state"
  unfolding reachable_def ex_state_def by blast

theorem one_active_per_queue_witness:
  "reachable ex_state \<and>
   get_queue ''net'' ''xbot'' ex_state = Some [ex_pack 0 ''5'', ex_pack 1 ''6''] \<and>
   one_active_at_head ex_state [ex_pack 0 ''5'', ex_pack 1 ''6''] \<and>
   is_active ex_state (ex_pack 0 ''5'') \<and> \<not> is_active ex_state (ex_pack 1 ''6'')"
proof -
  have a: "is_active ex_state (ex_pack 0 ''5'')" "\<not> is_active ex_state (ex_pack 1 ''6'')"
    by (simp_all add: is_active_def ex_pack_def ex_state_trace active_def)
  show ?thesis
    using one_active_per_queue [OF ex_state_reachable ex_state_queue] ex_state_reachable
      ex_state_queue a by simp
qed

subsection \<open>Completion\<close>

lemma filter_ref_none:
  "p_ref r \<notin> set (map p_ref fin) \<Longrightarrow> filter (\<lambda>x. p_ref x = p_ref r) fin = []"
  by (induction fin) auto

lemma filter_set_add:
  assumes d: "distinct (map p_ref fin)"
  shows "filter (\<lambda>x. p_ref x = p_ref r) (set_add r fin) = [r]"
proof (cases "p_ref r \<in> set (map p_ref fin)")
  case False
  then show ?thesis by (simp add: set_add_def filter_ref_none)
next
  case True
  have "filter (\<lambda>x. p_ref x = p_ref r) (map (\<lambda>x. if p_ref x = p_ref r then r else x) fin) = [r]"
    using d True
  proof (induction fin)
    case Nil
    then show ?case by simp
  next
    case (Cons a fin)
    show ?case
    proof (cases "p_ref a = p_ref r")
      case True
      with Cons.prems have "p_ref r \<notin> p_ref ` set fin" by auto
      then have "\<forall>x \<in> set fin. p_ref x \<noteq> p_ref r" by (metis imageI)
      then have "filter (\<lambda>x. p_ref x = p_ref r)
                   (map (\<lambda>x. if p_ref x = p_ref r then r else x) fin) = []"
        by (induction fin) auto
      with True show ?thesis by simp
    next
      case False
      with Cons show ?thesis by auto
    qed
  qed
  with True show ?thesis by (simp add: set_add_def)
qed

lemma terminal_more_fields [simp]:
  "dl (terminal h s) = dl s"
  "dl_saved (terminal h s) = dl_saved s"
  "lookups (terminal h s) = lookups s"
  by (simp_all add: terminal_def)

lemma dl_get_persist_shift:
  "dl_get (persist_shift n b s) (dl_key n b) = tl (dl_get s (dl_key n b))"
  by (simp add: persist_shift_def dl_get_def Let_def update_conv')

lemma dl_saved_persist_shift: "dl_saved (persist_shift n b s) = dl (persist_shift n b s)"
  by (simp add: persist_shift_def Let_def)

lemma advance_fields:
  "advance n b xdcc s = Some s' \<Longrightarrow>
     finished s' = finished s \<and> dl s' = dl s \<and> lookups s' = lookups s \<and>
     next_ref s' = next_ref s \<and> listeners s' = listeners s"
  by (auto simp: advance_def split: list.splits option.splits)

lemma dl_get_dl: "dl s' = dl s \<Longrightarrow> dl_get s' k = dl_get s k"
  by (simp add: dl_get_def)

text \<open>What the advancement rule does to a queue that is registered.\<close>

lemma advance_registered:
  assumes i: "registry_inv s" and g: "get_queue n b s = Some xdcc"
  shows "\<exists>s'. advance n b xdcc s = Some s' \<and>
      (case xdcc of
         [] \<Rightarrow> get_queue n b s' = None \<and> trace s' = trace s
       | nxt # rest \<Rightarrow> get_queue n b s' = Some xdcc \<and> p_xdcc nxt = Some (p_ref nxt) \<and>
                        trace s' = trace s @ [Signal (p_ref nxt) Start])"
proof (cases xdcc)
  case Nil
  then show ?thesis by (simp add: advance_def get_queue_delete_queue)
next
  case (Cons p ps)
  have qi: "queue_inv s n b (p # ps)" using i g Cons by (simp add: inv_queueD)
  have "p_xdcc p = Some (p_ref p)" using queue_inv_elem [OF qi, of p] by simp
  then show ?thesis using Cons g by (simp add: advance_def)
qed

text \<open>
  Claim C2. When the complete event of the head request of a queue is delivered in a
  reachable state, the handler returns, and afterwards the finished set holds the request
  exactly once, with the notices the handle had at that moment and with the handle
  reference removed; the request is no longer in its queue; the queue has lost its head and
  nothing else: the new head, if there is one, has received a start signal, otherwise the
  entry of the bot is deleted; and the persisted pending list has lost its head and is saved.
\<close>

theorem complete_moves_head_to_finished:
  assumes r: "reachable s" and g: "get_queue n b s = Some (request # xdcc)"
  shows "\<exists>s'. step e (OnComplete (p_ref request)) s = s' \<and>
      xdccComplete (e_eng e) request (terminal (p_ref request) s) = (Return, s') \<and>
      p_xdcc request = Some (p_ref request) \<and>
      filter (\<lambda>x. p_ref x = p_ref request) (finished s') =
        [request\<lparr>p_notices := Some (ax_notices (e_eng e (p_ref request))), p_xdcc := None\<rparr>] \<and>
      request \<notin> set xdcc \<and> p_ref request \<notin> p_ref ` set xdcc \<and>
      (case xdcc of
         [] \<Rightarrow> get_queue n b s' = None \<and>
               trace s' = trace s @ [Terminal (p_ref request)]
       | nxt # rest \<Rightarrow> get_queue n b s' = Some xdcc \<and> p_xdcc nxt = Some (p_ref nxt) \<and>
               trace s' = trace s @ [Terminal (p_ref request), Signal (p_ref nxt) Start]) \<and>
      dl_get s' (dl_key n b) = tl (dl_get s (dl_key n b)) \<and>
      dl_saved s' = dl s'"
proof -
  let ?h = "p_ref request"
  let ?t = "terminal ?h s"
  have i: "registry_inv s" using r by (rule reachable_inv)
  have qi: "queue_inv s n b (request # xdcc)" using i g by (rule inv_queueD)
  have e: "p_xdcc request = Some ?h" "p_network request = n" "p_bot request = b"
          "map_of (listeners s) ?h = Some request"
    using queue_inv_elem [OF qi, of request] by simp_all
  have dis: "request \<notin> set xdcc" "?h \<notin> p_ref ` set xdcc"
    using queue_inv_distinct [OF qi] by auto
  from g obtain nw where nw: "map_of (networks s) n = Some nw" "map_of (nw_xdcc nw) b = Some (request # xdcc)"
    by (auto dest: get_queue_SomeD)
  let ?r1 = "request\<lparr>p_notices := Some (ax_notices (e_eng e ?h)), p_xdcc := None\<rparr>"
  let ?s1 = "set_queue n b xdcc ?t"
  let ?s2 = "?s1\<lparr>finished := set_add ?r1 (finished ?s1)\<rparr>"
  have gt: "get_queue n b ?t = Some (request # xdcc)" using g by simp
  have i1: "registry_inv ?s1" using inv_set_queue_tl [OF _ gt] i by simp
  have i2: "registry_inv ?s2" using i1 by (rule inv_finished_add)
  have g2: "get_queue n b ?s2 = Some xdcc"
    using get_queue_set_queue_same [of ?t n b xdcc] nw by simp
  from advance_registered [OF i2 g2] obtain s3 where
    ac: "advance n b xdcc ?s2 = Some s3 \<and>
      (case xdcc of
         [] \<Rightarrow> get_queue n b s3 = None \<and> trace s3 = trace ?s2
       | nxt # rest \<Rightarrow> get_queue n b s3 = Some xdcc \<and> p_xdcc nxt = Some (p_ref nxt) \<and>
                        trace s3 = trace ?s2 @ [Signal (p_ref nxt) Start])" ..
  have a: "advance n b xdcc ?s2 = Some s3" using ac by (rule conjunct1)
  have c: "case xdcc of
         [] \<Rightarrow> get_queue n b s3 = None \<and> trace s3 = trace ?s2
       | nxt # rest \<Rightarrow> get_queue n b s3 = Some xdcc \<and> p_xdcc nxt = Some (p_ref nxt) \<and>
                        trace s3 = trace ?s2 @ [Signal (p_ref nxt) Start]"
    using ac by (rule conjunct2)
  let ?s' = "persist_shift n b s3"
  have x: "xdccComplete (e_eng e) request ?t = (Return, ?s')"
    using nw e a by (simp add: xdccComplete_def)
  have st: "step e (OnComplete ?h) s = ?s'" using e(4) x by simp
  note af = advance_fields [OF a]
  have fin: "finished ?s' = set_add ?r1 (finished s)" using af by simp
  have f: "filter (\<lambda>x. p_ref x = ?h) (finished ?s') = [?r1]"
    using filter_set_add [OF inv_finishedD [OF i], of ?r1] fin by simp
  have q': "case xdcc of
         [] \<Rightarrow> get_queue n b ?s' = None \<and> trace ?s' = trace s @ [Terminal ?h]
       | nxt # rest \<Rightarrow> get_queue n b ?s' = Some xdcc \<and> p_xdcc nxt = Some (p_ref nxt) \<and>
               trace ?s' = trace s @ [Terminal ?h, Signal (p_ref nxt) Start]"
    using c by (cases xdcc) simp_all
  have "dl s3 = dl s" using af by simp
  then have "dl_get s3 (dl_key n b) = dl_get s (dl_key n b)" by (rule dl_get_dl)
  then have d: "dl_get ?s' (dl_key n b) = tl (dl_get s (dl_key n b))"
    by (simp add: dl_get_persist_shift)
  have sv: "dl_saved ?s' = dl ?s'" by (rule dl_saved_persist_shift)
  show ?thesis
    apply (rule exI [of _ ?s'])
    apply (intro conjI)
            apply (rule st)
           apply (rule x)
          apply (rule e(1))
         apply (rule f)
        apply (rule dis(1))
       apply (rule dis(2))
      apply (rule q')
     apply (rule d)
    apply (rule sv)
    done
qed


lemma ex_state_dl: "dl_get ex_state (dl_key ''net'' ''xbot'') =
    [\<lparr>pe_pack = ''5'', pe_name = ''file5''\<rparr>, \<lparr>pe_pack = ''6'', pe_name = ''file6''\<rparr>]"
  by code_simp

theorem complete_moves_head_to_finished_witness:
  "reachable ex_state \<and>
   get_queue ''net'' ''xbot'' ex_state = Some [ex_pack 0 ''5'', ex_pack 1 ''6''] \<and>
   filter (\<lambda>x. p_ref x = 0) (finished (step ex_env (OnComplete 0) ex_state)) =
     [(ex_pack 0 ''5'')\<lparr>p_notices := Some [''sending file''], p_xdcc := None\<rparr>] \<and>
   get_queue ''net'' ''xbot'' (step ex_env (OnComplete 0) ex_state) = Some [ex_pack 1 ''6''] \<and>
   trace (step ex_env (OnComplete 0) ex_state) = [Signal 0 Start, Terminal 0, Signal 1 Start] \<and>
   dl_get (step ex_env (OnComplete 0) ex_state) (dl_key ''net'' ''xbot'') =
     [\<lparr>pe_pack = ''6'', pe_name = ''file6''\<rparr>]"
proof -
  have p: "\<And>h i. p_ref (ex_pack h i) = h"
    by (simp add: ex_pack_def)
  have n: "ax_notices (e_eng ex_env 0) = [''sending file'']" by (simp add: ex_env_def)
  from complete_moves_head_to_finished [OF ex_state_reachable ex_state_queue, of ex_env]
  show ?thesis
    using ex_state_reachable ex_state_queue
    by (simp add: p n ex_state_trace ex_state_dl del: step.simps)
qed

subsection \<open>Cancelling a download\<close>








subsection \<open>Registering a network\<close>

lemma SlingIrc_new_ok:
  "o_onPackinfo ob \<noteq> BadCallback \<Longrightarrow> \<exists>irc. SlingIrc_new gen (JStr h) ob = Inr irc \<and>
     i_hostname irc = h \<and>
     i_nick irc = (case o_nick ob of Some n \<Rightarrow> n | None \<Rightarrow> gen) \<and>
     i_clientOpt irc = clientOptions (i_nick irc) (case o_ircOpts ob of Some io \<Rightarrow> io | None \<Rightarrow> [])"
  by (simp add: SlingIrc_new_def Let_def)

text \<open>
  The empty string is a string: \<^verbatim>\<open>addNetwork\<close> accepts it as a name and registers the
  network under it.
\<close>

theorem addNetwork_empty_name_counterexample:
  "fst (addNetwork ''Nomi42'' (JStr []) (JStr ''irc.example.org'') (Some ex_opts)
          (init_state [] [])) = Return \<and>
   map_of (networks (snd (addNetwork ''Nomi42'' (JStr []) (JStr ''irc.example.org'')
          (Some ex_opts) (init_state [] [])))) [] \<noteq> None"
  by code_simp

text \<open>
  Claim C6, as the code has it. \<^verbatim>\<open>addNetwork\<close> throws when the name is not a string and
  when a network of that name is registered, and leaves the state as it was, the registry
  and the registered network included. Otherwise, when the options are an object and the
  hostname is a string, so that the session can be built, the network is registered under
  the name with that session and no queue, the other networks stay, and the configuration
  {hostname, options} is stored under the name and saved; the stored options are the given
  ones, with the protocol-client options completed by the constructor's defaults.
\<close>

theorem addNetwork_contract:
  "(\<not> isString network \<longrightarrow>
      addNetwork gen network hostname opts s = (Throw ''network must a string'', s)) \<and>
   (\<forall>name nw. network = JStr name \<and> map_of (networks s) name = Some nw \<longrightarrow>
      addNetwork gen network hostname opts s = (Throw ''network name not unique'', s)) \<and>
   (\<forall>name h ob. network = JStr name \<and> map_of (networks s) name = None \<and>
        hostname = JStr h \<and> opts = Some ob \<longrightarrow>
      (\<exists>s' irc ob1.
         addNetwork gen network hostname opts s = (Return, s') \<and>
         SlingIrc_new gen hostname (ob\<lparr>o_onPackinfo := PackCallback\<rparr>) = Inr irc \<and>
         map_of (networks s') name = Some \<lparr>nw_irc = irc, nw_xdcc = []\<rparr> \<and>
         (\<forall>k. k \<noteq> name \<longrightarrow> map_of (networks s') k = map_of (networks s) k) \<and>
         map_of (nwc s') name = Some \<lparr>nc_hostname = hostname, nc_opts = Some ob1\<rparr> \<and>
         o_nick ob1 = o_nick ob \<and> o_channels ob1 = o_channels ob \<and>
         o_commands ob1 = o_commands ob \<and> o_onPackinfo ob1 = o_onPackinfo ob \<and>
         o_ircOpts ob1 = map_option (clientOptions (i_nick irc)) (o_ircOpts ob) \<and>
         nwc_saved s' = nwc s'))"
proof (intro conjI allI impI)
  assume "\<not> isString network"
  then show "addNetwork gen network hostname opts s = (Throw ''network must a string'', s)"
    by (cases network) (simp_all add: addNetwork_def)
next
  fix name nw assume "network = JStr name \<and> map_of (networks s) name = Some nw"
  then show "addNetwork gen network hostname opts s = (Throw ''network name not unique'', s)"
    by (simp add: addNetwork_def)
next
  fix name h ob
  assume a: "network = JStr name \<and> map_of (networks s) name = None \<and>
        hostname = JStr h \<and> opts = Some ob"
  from SlingIrc_new_ok [of "ob\<lparr>o_onPackinfo := PackCallback\<rparr>" gen h]
  obtain irc where irc: "SlingIrc_new gen (JStr h) (ob\<lparr>o_onPackinfo := PackCallback\<rparr>) = Inr irc"
    and co: "i_clientOpt irc = clientOptions (i_nick irc)
               (case o_ircOpts ob of Some io \<Rightarrow> io | None \<Rightarrow> [])"
    by auto
  let ?ob1 = "case o_ircOpts ob of None \<Rightarrow> ob | Some io \<Rightarrow> ob\<lparr>o_ircOpts := Some (i_clientOpt irc)\<rparr>"
  let ?c = "AList.update name \<lparr>nc_hostname = hostname, nc_opts = Some ?ob1\<rparr> (nwc s)"
  let ?s' = "s\<lparr>networks := AList.update name \<lparr>nw_irc = irc, nw_xdcc = []\<rparr> (networks s),
               nwc := ?c, nwc_saved := ?c\<rparr>"
  have r: "addNetwork gen network hostname opts s = (Return, ?s')"
    using a irc by (simp add: addNetwork_def Let_def)
  have o: "o_nick ?ob1 = o_nick ob \<and> o_channels ?ob1 = o_channels ob \<and>
         o_commands ?ob1 = o_commands ob \<and> o_onPackinfo ?ob1 = o_onPackinfo ob \<and>
         o_ircOpts ?ob1 = map_option (clientOptions (i_nick irc)) (o_ircOpts ob)"
    using co by (cases "o_ircOpts ob") simp_all
  show "\<exists>s' irc ob1.
         addNetwork gen network hostname opts s = (Return, s') \<and>
         SlingIrc_new gen hostname (ob\<lparr>o_onPackinfo := PackCallback\<rparr>) = Inr irc \<and>
         map_of (networks s') name = Some \<lparr>nw_irc = irc, nw_xdcc = []\<rparr> \<and>
         (\<forall>k. k \<noteq> name \<longrightarrow> map_of (networks s') k = map_of (networks s) k) \<and>
         map_of (nwc s') name = Some \<lparr>nc_hostname = hostname, nc_opts = Some ob1\<rparr> \<and>
         o_nick ob1 = o_nick ob \<and> o_channels ob1 = o_channels ob \<and>
         o_commands ob1 = o_commands ob \<and> o_onPackinfo ob1 = o_onPackinfo ob \<and>
         o_ircOpts ob1 = map_option (clientOptions (i_nick irc)) (o_ircOpts ob) \<and>
         nwc_saved s' = nwc s'"
    apply (rule exI [of _ ?s'], rule exI [of _ irc], rule exI [of _ ?ob1])
    using r irc a o by (simp add: update_conv')
qed

theorem addNetwork_contract_witness:
  "\<not> isString (JNumber (Num 7)) \<and>
   addNetwork ''Nomi42'' (JNumber (Num 7)) (JStr ''irc.example.org'') (Some ex_opts) ex_state =
     (Throw ''network must a string'', ex_state) \<and>
   map_of (networks ex_state) ''net'' \<noteq> None \<and>
   addNetwork ''Nomi42'' (JStr ''net'') (JStr ''other.example.org'') (Some ex_opts) ex_state =
     (Throw ''network name not unique'', ex_state) \<and>
   map_of (networks ex_state) ''net2'' = None \<and>
   (\<exists>s'. addNetwork ''Nomi42'' (JStr ''net2'') (JStr ''irc.example.org'') (Some ex_opts) ex_state =
           (Return, s') \<and>
         map_of (networks s') ''net2'' \<noteq> None \<and>
         map_of (networks s') ''net'' = map_of (networks ex_state) ''net'' \<and>
         map_of (nwc_saved s') ''net2'' =
           Some \<lparr>nc_hostname = JStr ''irc.example.org'', nc_opts = Some ex_opts\<rparr>)"
proof -
  note c = addNetwork_contract [of _ "''Nomi42''" _ "Some ex_opts" ex_state]
  have n: "map_of (networks ex_state) ''net'' \<noteq> None" by code_simp
  have n2: "map_of (networks ex_state) ''net2'' = None" by code_simp
  have a: "addNetwork ''Nomi42'' (JNumber (Num 7)) (JStr ''irc.example.org'') (Some ex_opts) ex_state =
     (Throw ''network must a string'', ex_state)"
    using c [of "JNumber (Num 7)" "JStr ''irc.example.org''"] by simp
  have b: "addNetwork ''Nomi42'' (JStr ''net'') (JStr ''other.example.org'') (Some ex_opts) ex_state =
     (Throw ''network name not unique'', ex_state)"
    using c [of "JStr ''net''" "JStr ''other.example.org''"] n by auto
  from c [of "JStr ''net2''" "JStr ''irc.example.org''"] n2
  obtain s' irc ob1 where
    r: "addNetwork ''Nomi42'' (JStr ''net2'') (JStr ''irc.example.org'') (Some ex_opts) ex_state =
           (Return, s')"
    and m: "map_of (networks s') ''net2'' = Some \<lparr>nw_irc = irc, nw_xdcc = []\<rparr>"
    and k: "\<forall>k. k \<noteq> ''net2'' \<longrightarrow> map_of (networks s') k = map_of (networks ex_state) k"
    and w: "map_of (nwc s') ''net2'' =
              Some \<lparr>nc_hostname = JStr ''irc.example.org'', nc_opts = Some ob1\<rparr>"
    and o: "o_nick ob1 = o_nick ex_opts" "o_channels ob1 = o_channels ex_opts"
      "o_commands ob1 = o_commands ex_opts" "o_onPackinfo ob1 = o_onPackinfo ex_opts"
      "o_ircOpts ob1 = map_option (clientOptions (i_nick irc)) (o_ircOpts ex_opts)"
    and sv: "nwc_saved s' = nwc s'"
    by auto
  have "ob1 = ex_opts" using o by (simp add: ex_opts_def)
  then have "map_of (nwc_saved s') ''net2'' =
           Some \<lparr>nc_hostname = JStr ''irc.example.org'', nc_opts = Some ex_opts\<rparr>"
    using w sv by simp
  moreover have "map_of (networks s') ''net'' = map_of (networks ex_state) ''net''"
    using k by simp
  ultimately show ?thesis using a b n n2 r m by simp
qed

subsection \<open>The round trip of a session, a cancelled download, a failed download\<close>

text \<open>
  Claim C9 does not hold of the code. \<^verbatim>\<open>toJSON\<close> writes the nickname to \<^verbatim>\<open>opts.nick\<close>,
  \<^verbatim>\<open>fromJSON\<close> reads it from the top-level \<^verbatim>\<open>nick\<close>: the session rebuilt from a snapshot
  has the hostname and the command sequence of the original and starts connecting, but its
  nickname is the one the generator supplies. The session \<open>ex_session\<close> with nickname
  \<^verbatim>\<open>sling\<close> comes back as \<^verbatim>\<open>Nomi42\<close>.
\<close>

theorem fromJSON_toJSON_generated_nick:
  "fromJSON gen cf (toJSON p) =
     Inr \<lparr>i_hostname = i_hostname p, i_nick = gen, i_commands = i_commands p,
          i_chans = setChans (rev (map cf (map snd (i_chans p)))) [],
          i_status = ''connecting'', i_errors = [], i_motd = [], i_notices = [],
          i_packCb = NoCallback, i_clientOpt = clientOptions gen (i_clientOpt p)\<rparr> \<and>
   i_nick ex_session = ''sling'' \<and>
   map_sum id i_nick (fromJSON ''Nomi42'' (\<lambda>c. c) (toJSON ex_session)) = Inr ''Nomi42''"
  by (simp add: fromJSON_def toJSON_def fromJSON_opts_def SlingIrc_new_def ex_session_def Let_def)

lemma cancelDownload_dl:
  "dl (snd (cancelDownload eng network b ident s)) = dl s \<and>
   dl_saved (snd (cancelDownload eng network b ident s)) = dl_saved s"
  by (auto simp: cancelDownload_def Let_def split: option.splits list.splits)

text \<open>
  Claim C4 does not hold of the code for \<^verbatim>\<open>cancelDownload\<close>, which never touches the
  configuration store. In the sample run the request with id 6 is removed from the queue,
  and the pending list, in the store and as saved, still names both requests.
\<close>

theorem cancelDownload_keeps_pending_list:
  "get_queue ''net'' ''xbot'' ex_state = Some [ex_pack 0 ''5'', ex_pack 1 ''6''] \<and>
   dl_get ex_state (dl_key ''net'' ''xbot'') =
     [\<lparr>pe_pack = ''5'', pe_name = ''file5''\<rparr>, \<lparr>pe_pack = ''6'', pe_name = ''file6''\<rparr>] \<and>
   fst (cancelDownload (e_eng ex_env) ''net'' ''xbot'' ''6'' ex_state) = Callback JNull \<and>
   get_queue ''net'' ''xbot'' (snd (cancelDownload (e_eng ex_env) ''net'' ''xbot'' ''6'' ex_state))
     = Some [ex_pack 0 ''5''] \<and>
   dl_get (snd (cancelDownload (e_eng ex_env) ''net'' ''xbot'' ''6'' ex_state))
       (dl_key ''net'' ''xbot'') =
     [\<lparr>pe_pack = ''5'', pe_name = ''file5''\<rparr>, \<lparr>pe_pack = ''6'', pe_name = ''file6''\<rparr>] \<and>
   dl_saved (snd (cancelDownload (e_eng ex_env) ''net'' ''xbot'' ''6'' ex_state)) =
     dl_saved ex_state"
  by code_simp

text \<open>
  A lookup by composite id never returns a document whose own id is the key.
\<close>

lemma getItem_longer_id: "getItem docs ident = DbPack d \<Longrightarrow> d_id d \<noteq> ident"
proof
  assume g: "getItem docs ident = DbPack d" and e: "d_id d = ident"
  from g have "find (\<lambda>d. composite_id d = ident) docs = Some d"
    by (simp add: getItem_def split: option.splits)
  then have "composite_id d = ident" by (auto simp: find_Some_iff)
  then have "length (composite_id d) = length (d_id d)" using e by simp
  then show False by (simp add: composite_id_def)
qed

text \<open>
  Claim C3 does not hold of the code with the document store of the spec. The error handler
  re-submits with \<^verbatim>\<open>request.id\<close>, the pack number, while the store is asked by composite id
  (as \<^verbatim>\<open>boot\<close> does). In the sample run the head request, enqueued under
  \<^verbatim>\<open>net:xbot:5\<close>, fails: the handler returns, the queue advances, and the lookup of
  \<^verbatim>\<open>5\<close> finds nothing, so the second stage ends with "Pack not found". Afterwards the
  request is in no queue, no lookup is outstanding, and the pending list no longer names it.
\<close>

theorem error_requeue_lookup_misses:
  "getItem ex_docs ''net:xbot:5'' = DbPack (ex_doc ''5'') \<and>
   get_queue ''net'' ''xbot'' ex_state = Some [ex_pack 0 ''5'', ex_pack 1 ''6''] \<and>
   map_of (listeners ex_state) 0 = Some (ex_pack 0 ''5'') \<and>
   fst (xdccError (ex_pack 0 ''5'') (terminal 0 ex_state)) = Return \<and>
   lookups (step ex_env (OnError 0) ex_state) = [(''5'', False)] \<and>
   get_queue ''net'' ''xbot'' (step ex_env (OnError 0) ex_state) = Some [ex_pack 1 ''6''] \<and>
   getItem ex_docs ''5'' = DbNull \<and>
   fst (addDownload_found False (getItem ex_docs ''5'')
          ((step ex_env (OnError 0) ex_state)\<lparr>lookups := []\<rparr>)) =
     Callback (JStr ''Pack not found'') \<and>
   map (\<lambda>(n, nw). (n, nw_xdcc nw))
     (networks (run [(ex_env, OnError 0), (ex_env, DbReply 0 (getItem ex_docs ''5''))] ex_state))
     = [(''net'', [(''xbot'', [ex_pack 1 ''6''])])] \<and>
   lookups (run [(ex_env, OnError 0), (ex_env, DbReply 0 (getItem ex_docs ''5''))] ex_state) = [] \<and>
   finished (run [(ex_env, OnError 0), (ex_env, DbReply 0 (getItem ex_docs ''5''))] ex_state) = [] \<and>
   dl_get (run [(ex_env, OnError 0), (ex_env, DbReply 0 (getItem ex_docs ''5''))] ex_state)
       (dl_key ''net'' ''xbot'') = [\<lparr>pe_pack = ''6'', pe_name = ''file6''\<rparr>]"
  by code_simp

end
